theory Spec2Isabelle
  imports Complex_Main "HOL-Library.AList"
begin

section \<open>Ratcheting validation of custom resources: the correlation tree\<close>

text \<open>
  A shallow embedding of \<^verbatim>\<open>pkg/apiserver/validation/ratcheting.go\<close> of the
  apiextensions-apiserver.  A \<^verbatim>\<open>CorrelatedObject\<close> pairs the old and the new value at one
  position of the schema; \<^verbatim>\<open>Key\<close> and \<^verbatim>\<open>Index\<close> build its children lazily,
  \<^verbatim>\<open>CachedDeepEqual\<close> compares old and new with a per-node cache, and
  \<^verbatim>\<open>ratchetingValueValidator.Validate\<close> turns the errors of an unchanged node into
  warnings.

  Mutation is explicit state passing: a method that mutates its receiver returns the
  receiver as it is after the call.  A node owns its children (the only writers of
  \<^verbatim>\<open>children\<close> are \<^verbatim>\<open>Key\<close> and \<^verbatim>\<open>Index\<close>, which store a freshly allocated
  node), so the pointer structure is a tree and a node is modelled as a value holding its
  children; the pointer a lookup returns is the child stored under the looked-up key.
\<close>

subsection \<open>Decoded values\<close>

text \<open>
  The values under validation are decoded JSON held in Go's \<^verbatim>\<open>interface{}\<close>: nil, bool,
  int64, float64, string, \<^verbatim>\<open>[]interface{}\<close> and \<^verbatim>\<open>map[string]interface{}\<close>.  The nil
  interface is \<open>VNull\<close>.  A finite float64 is represented by the rational it denotes
  (Go's \<^verbatim>\<open>==\<close> on finite floats is equality of the denoted numbers).  A map is an
  association list: its order is the order in which a \<^verbatim>\<open>range\<close> loop happens to visit
  the keys, which Go leaves unspecified, so a statement proved for every association list
  holds for every iteration order.
\<close>

datatype val =
    VNull
  | VBool bool
  | VInt int
  | VFloat rat
  | VString string
  | VList "val list"
  | VMap "(string \<times> val) list"

text \<open>The comma-ok type assertions \<^verbatim>\<open>v.([]interface{})\<close> and
  \<^verbatim>\<open>v.(map[string]interface{})\<close>: the asserted value (the zero value on failure) and
  the ok flag.\<close>

fun asList :: "val \<Rightarrow> val list \<times> bool" where
  "asList (VList xs) = (xs, True)"
| "asList _ = ([], False)"

fun asMap :: "val \<Rightarrow> (string \<times> val) list \<times> bool" where
  "asMap (VMap m) = (m, True)"
| "asMap _ = ([], False)"

text \<open>\<^verbatim>\<open>reflect.DeepEqual\<close> on decoded values: element-wise on lists, key-wise on maps
  (whatever the order of the keys), and equality of type and value on scalars.\<close>

fun DeepEqual :: "val \<Rightarrow> val \<Rightarrow> bool" where
  "DeepEqual (VList xs) (VList ys) = list_all2 DeepEqual xs ys"
| "DeepEqual (VMap xs) (VMap ys) =
     (length xs = length ys \<and>
      list_all (\<lambda>p. case map_of ys (fst p) of None \<Rightarrow> False
                                              | Some w \<Rightarrow> DeepEqual (snd p) w) xs)"
| "DeepEqual a b = (a = b)"

text \<open>A run-time panic of the Go program.\<close>

datatype panic = IndexOutOfRange int nat | NilPointerDereference

text \<open>Slice indexing \<^verbatim>\<open>xs[i]\<close> with a signed index: Go panics unless
  \<open>0 \<le> i < len(xs)\<close>.\<close>

definition index_slice :: "val list \<Rightarrow> int \<Rightarrow> panic + val" where
  "index_slice xs i =
     (if 0 \<le> i \<and> i < int (length xs) then Inr (xs ! nat i)
      else Inl (IndexOutOfRange i (length xs)))"

subsection \<open>Schemas\<close>

text \<open>The fields of kube-openapi's \<^verbatim>\<open>spec.Schema\<close> that the file reads:
  \<^verbatim>\<open>Properties\<close>, \<^verbatim>\<open>AdditionalProperties\<close> (a \<^verbatim>\<open>*SchemaOrBool\<close>), \<^verbatim>\<open>Items\<close>
  (a \<^verbatim>\<open>*SchemaOrArray\<close>) and the vendor \<^verbatim>\<open>Extensions\<close>.  A nil pointer is \<open>None\<close>.\<close>

datatype Schema =
  MkSchema (Properties: "(string \<times> Schema) list")
           (AdditionalProperties: "SchemaOrBool option")
           (Items: "SchemaOrArray option")
           (Extensions: "(string \<times> val) list")
and SchemaOrBool =
  MkSchemaOrBool (Allows: bool) (sob_Schema: "Schema option")
and SchemaOrArray =
  MkSchemaOrArray (soa_Schema: "Schema option") (soa_Schemas: "Schema list")

text \<open>Modelled from the spec: \<^verbatim>\<open>Extensions.GetString\<close> belongs to kube-openapi and is
  not among the source files.  The spec describes the annotation as a string-valued
  extension on list schema nodes selecting the merge strategy, absent meaning positional:
  the lookup yields the string and true when the extension is present and a string, and
  the empty string and false otherwise.\<close>

definition GetString :: "(string \<times> val) list \<Rightarrow> string \<Rightarrow> string \<times> bool" where
  "GetString e key =
     (case map_of e key of
        Some (VString str) \<Rightarrow> (str, True)
      | _ \<Rightarrow> ('''', False))"

subsection \<open>The keyed view of a map-type list\<close>

text \<open>Modelled from the spec: \<^verbatim>\<open>celopenapi.MakeMapList\<close> and \<^verbatim>\<open>common.MapList.Get\<close>
  live in k8s.io/apiserver and are not among the source files.  The spec: for the
  \<^verbatim>\<open>map\<close> strategy, build (once, cached) a lookup from each old element's merge-key
  values to that element; compute the new element's merge-key values and return the
  matching old element, or null if none matches; the merge-key field names are declared
  beside the strategy.  The spec leaves open which of two old elements with the same
  merge-key values is found; here it is the first.  An element that is not a map, or
  lacks a merge-key field, has no merge-key values and matches nothing.\<close>

datatype MapList = MkMapList (ml_keys: "string list") (ml_lookup: "(val list \<times> val) list")

definition XListMapKeys :: "Schema \<Rightarrow> string list" where
  "XListMapKeys s =
     (case map_of (Extensions s) ''x-kubernetes-list-map-keys'' of
        Some (VList ks) \<Rightarrow> concat (map (\<lambda>k. case k of VString n \<Rightarrow> [n] | _ \<Rightarrow> []) ks)
      | _ \<Rightarrow> [])"

fun merge_key_values :: "(string \<times> val) list \<Rightarrow> string list \<Rightarrow> val list option" where
  "merge_key_values m [] = Some []"
| "merge_key_values m (k # ks) =
     (case map_of m k of
        None \<Rightarrow> None
      | Some v \<Rightarrow> (case merge_key_values m ks of None \<Rightarrow> None | Some vs \<Rightarrow> Some (v # vs)))"

definition merge_key :: "string list \<Rightarrow> val \<Rightarrow> val list option" where
  "merge_key ks v = (case v of VMap m \<Rightarrow> merge_key_values m ks | _ \<Rightarrow> None)"

definition MakeMapList :: "Schema \<Rightarrow> val list \<Rightarrow> MapList" where
  "MakeMapList s items =
     MkMapList (XListMapKeys s)
       (concat (map (\<lambda>item. case merge_key (XListMapKeys s) item of
                               None \<Rightarrow> []
                             | Some k \<Rightarrow> [(k, item)]) items))"

definition Get :: "MapList \<Rightarrow> val \<Rightarrow> val" where
  "Get ml obj =
     (case merge_key (ml_keys ml) obj of
        None \<Rightarrow> VNull
      | Some k \<Rightarrow> (case map_of (ml_lookup ml) k of None \<Rightarrow> VNull | Some old \<Rightarrow> old))"

subsection \<open>Correlation nodes\<close>

text \<open>The key of a child: \<^verbatim>\<open>children\<close> is a \<^verbatim>\<open>map[interface{}]*CorrelatedObject\<close>
  keyed by a field name or by an \<^verbatim>\<open>int\<close> index.\<close>

datatype ckey = KStr string | KInt int

text \<open>\<^verbatim>\<open>CorrelatedObject\<close>.  \<^verbatim>\<open>comparisonResult\<close> is a \<^verbatim>\<open>*bool\<close>, \<^verbatim>\<open>mapList\<close> an
  interface that is nil until built.  \<^verbatim>\<open>children\<close> is an association list with the
  map's store semantics (\<open>AList.update\<close>); a nil map reads like the empty map, so both
  are \<open>[]\<close>.\<close>

datatype CorrelatedObject =
  MkCorrelatedObject
    (OldValue: val)
    (Value: val)
    (Schema: "Schema option")
    (comparisonResult: "bool option")
    (mapList: "MapList option")
    (children: "(ckey \<times> CorrelatedObject) list")

fun set_comparisonResult :: "bool option \<Rightarrow> CorrelatedObject \<Rightarrow> CorrelatedObject" where
  "set_comparisonResult c' (MkCorrelatedObject ov nv s c m cs) = MkCorrelatedObject ov nv s c' m cs"

fun set_mapList :: "MapList option \<Rightarrow> CorrelatedObject \<Rightarrow> CorrelatedObject" where
  "set_mapList m' (MkCorrelatedObject ov nv s c m cs) = MkCorrelatedObject ov nv s c m' cs"

fun set_children ::
  "(ckey \<times> CorrelatedObject) list \<Rightarrow> CorrelatedObject \<Rightarrow> CorrelatedObject" where
  "set_children cs' (MkCorrelatedObject ov nv s c m cs) = MkCorrelatedObject ov nv s c m cs'"

definition NewCorrelatedObject :: "val \<Rightarrow> val \<Rightarrow> Schema option \<Rightarrow> CorrelatedObject" where
  "NewCorrelatedObject new old schema = MkCorrelatedObject old new schema None None []"

text \<open>The number of nodes of a correlation tree; the measure of the recursion of
  \<^verbatim>\<open>CachedDeepEqual\<close>.\<close>

fun nodes :: "CorrelatedObject \<Rightarrow> nat" where
  "nodes (MkCorrelatedObject ov nv s c m cs) = Suc (sum_list (map (\<lambda>p. nodes (snd p)) cs))"

definition nodes_sum :: "(ckey \<times> CorrelatedObject) list \<Rightarrow> nat" where
  "nodes_sum cs = sum_list (map (\<lambda>p. nodes (snd p)) cs)"

subsection \<open>List correlation\<close>

text \<open>\<^verbatim>\<open>correlateOldValueForChildAtNewIndex\<close>: the old value correlated with the new
  element at \<open>index\<close> (nil, that is \<open>VNull\<close>, when there is none), and the receiver,
  whose \<^verbatim>\<open>mapList\<close> the \<^verbatim>\<open>map\<close> strategy fills on first use.  \<^verbatim>\<open>r.Schema\<close> is
  dereferenced without a check, and the two slice reads panic on an index out of
  range.\<close>

definition correlateOldValueForChildAtNewIndex ::
  "CorrelatedObject \<Rightarrow> int \<Rightarrow> panic + (val \<times> CorrelatedObject)" where
  "correlateOldValueForChildAtNewIndex r index =
     (let (oldAsList, ok) = asList (OldValue r) in
      if \<not> ok then Inr (VNull, r)
      else
        let (asList', ok) = asList (Value r) in
        if \<not> ok then Inr (VNull, r)
        else if int (length asList') \<le> index then Inr (VNull, r)
        else
          (case Schema r of
             None \<Rightarrow> Inl NilPointerDereference
           | Some schema \<Rightarrow>
              (let (listType, _) = GetString (Extensions schema) ''x-kubernetes-list-type'' in
               if listType = ''map'' then
                 (case index_slice asList' index of
                    Inl p \<Rightarrow> Inl p
                  | Inr currentElement \<Rightarrow>
                     (case mapList r of
                        None \<Rightarrow>
                          (let oldList = MakeMapList schema oldAsList
                           in Inr (Get oldList currentElement, set_mapList (Some oldList) r))
                      | Some oldList \<Rightarrow> Inr (Get oldList currentElement, r)))
               else if listType = ''set'' then Inr (VNull, r)
               else if listType = ''atomic'' then Inr (VNull, r)
               else if int (length oldAsList) \<le> index then Inr (VNull, r)
               else
                 (case index_slice oldAsList index of
                    Inl p \<Rightarrow> Inl p
                  | Inr v \<Rightarrow> Inr (v, r)))))"

subsection \<open>Cached equality\<close>

text \<open>\<^verbatim>\<open>CachedDeepEqual\<close> returns its result and the receiver after the call.  The
  deferred function stores the result in \<^verbatim>\<open>comparisonResult\<close> on every return path
  behind the cache check.  \<open>compare_children\<close> is the body shared by the two
  \<^verbatim>\<open>for ... range\<close> loops: for each key in turn, look the child up, fail if it is
  missing, call the child's \<^verbatim>\<open>CachedDeepEqual\<close> (which may fill the child's cache, so the
  child is stored back) and fail if it is false.\<close>

function CachedDeepEqual :: "CorrelatedObject \<Rightarrow> bool \<times> CorrelatedObject"
  and compare_children ::
    "ckey list \<Rightarrow> (ckey \<times> CorrelatedObject) list \<Rightarrow> bool \<times> (ckey \<times> CorrelatedObject) list"
where
  "CachedDeepEqual r =
    (case comparisonResult r of
       Some b \<Rightarrow> (b, r)
     | None \<Rightarrow>
        (let (res, cs) =
           (if Value r = VNull \<and> OldValue r = VNull then (True, children r)
            else if Value r = VNull \<or> OldValue r = VNull then (False, children r)
            else
              (let (oldAsArray, oldIsArray) = asList (OldValue r);
                   (newAsArray, newIsArray) = asList (Value r)
               in if oldIsArray \<noteq> newIsArray then (False, children r)
                  else if oldIsArray then
                    (if length oldAsArray \<noteq> length newAsArray then (False, children r)
                     else if length (children r) \<noteq> length oldAsArray then (False, children r)
                     else compare_children
                            (map (\<lambda>i. KInt (int i)) [0..<length newAsArray]) (children r))
                  else
                    (let (oldAsMap, oldIsMap) = asMap (OldValue r);
                         (newAsMap, newIsMap) = asMap (Value r)
                     in if oldIsMap \<noteq> newIsMap then (False, children r)
                        else if oldIsMap then
                          (if length oldAsMap \<noteq> length newAsMap then (False, children r)
                           else if length oldAsMap = 0 \<and> length newAsMap = 0
                             then (True, children r)
                           else if length (children r) \<noteq> length oldAsMap
                             then (False, children r)
                           else compare_children
                                  (map (\<lambda>p. KStr (fst p)) oldAsMap) (children r))
                        else (DeepEqual (OldValue r) (Value r), children r))))
         in (res, set_comparisonResult (Some res) (set_children cs r))))"
| "compare_children [] cs = (True, cs)"
| "compare_children (k # ks) cs =
    (case map_of cs k of
       None \<Rightarrow> (False, cs)
     | Some child \<Rightarrow>
        (let (eq, child') = CachedDeepEqual child;
             cs' = AList.update k child' cs
         in if \<not> eq then (False, cs') else compare_children ks cs'))"
  by pat_completeness auto

text \<open>Termination: the recursion descends into a child, and a call leaves the number
  of nodes of its receiver as it was, so the children still to visit do not grow.\<close>

lemma nodes_children: "nodes r = Suc (nodes_sum (children r))"
  by (cases r) (simp add: nodes_sum_def)

lemma nodes_set_comparisonResult [simp]: "nodes (set_comparisonResult c r) = nodes r"
  by (cases r) simp

lemma nodes_set_mapList [simp]: "nodes (set_mapList m r) = nodes r"
  by (cases r) simp

lemma nodes_set_children [simp]: "nodes (set_children cs r) = Suc (nodes_sum cs)"
  by (cases r) (simp add: nodes_sum_def)

lemma nodes_sum_lookup: "map_of cs k = Some c \<Longrightarrow> nodes c \<le> nodes_sum cs"
  by (induction cs) (auto simp: nodes_sum_def split: if_splits)

lemma nodes_sum_update:
  "map_of cs k = Some c \<Longrightarrow> nodes c' = nodes c \<Longrightarrow>
   nodes_sum (AList.update k c' cs) = nodes_sum cs"
  by (induction cs) (auto simp: nodes_sum_def split: if_splits)

lemma CachedDeepEqual_nodes_partial:
  "CachedDeepEqual_compare_children_dom (Inl r) \<Longrightarrow> nodes (snd (CachedDeepEqual r)) = nodes r"
  "CachedDeepEqual_compare_children_dom (Inr (ks, cs)) \<Longrightarrow>
     nodes_sum (snd (compare_children ks cs)) = nodes_sum cs"
proof (induction r and ks cs rule: CachedDeepEqual_compare_children.pinduct)
  case (1 r)
  note dom = 1(1) and IHa = 1(2) and IHm = 1(3)
  show ?case
  proof (cases "comparisonResult r")
    case (Some b)
    with dom show ?thesis by (simp add: CachedDeepEqual.psimps)
  next
    case None
    obtain oa oi where ol: "asList (OldValue r) = (oa, oi)" by force
    obtain na ni where nl: "asList (Value r) = (na, ni)" by force
    obtain om omi where oml: "asMap (OldValue r) = (om, omi)" by force
    obtain nm nmi where nml: "asMap (Value r) = (nm, nmi)" by force
    have A: "nodes_sum (snd (compare_children (map (\<lambda>i. KInt (int i)) [0..<length na])
                               (children r))) = nodes_sum (children r)"
      if "\<not> (Value r = VNull \<and> OldValue r = VNull)" "\<not> (Value r = VNull \<or> OldValue r = VNull)"
         "\<not> oi \<noteq> ni" "oi" "\<not> length oa \<noteq> length na" "\<not> length (children r) \<noteq> length oa"
      by (rule IHa [OF None that(1,2) refl ol [symmetric] refl nl [symmetric] that(3-6)])
    have B: "nodes_sum (snd (compare_children (map (\<lambda>p. KStr (fst p)) om) (children r)))
               = nodes_sum (children r)"
      if "\<not> (Value r = VNull \<and> OldValue r = VNull)" "\<not> (Value r = VNull \<or> OldValue r = VNull)"
         "\<not> oi \<noteq> ni" "\<not> oi" "\<not> omi \<noteq> nmi" "omi" "\<not> length om \<noteq> length nm"
         "\<not> (length om = 0 \<and> length nm = 0)" "\<not> length (children r) \<noteq> length om"
      by (rule IHm [OF None that(1,2) refl ol [symmetric] refl nl [symmetric] that(3,4)
                 refl oml [symmetric] refl nml [symmetric] that(5-9)])
    show ?thesis
      unfolding CachedDeepEqual.psimps [OF dom] None ol nl oml nml
      using A B
      by (simp add: nodes_children [of r] split_beta)
  qed
next
  case (2 cs)
  then show ?case by (simp add: compare_children.psimps)
next
  case (3 k ks cs)
  show ?case
  proof (cases "map_of cs k")
    case None
    with 3(1) show ?thesis by (simp add: compare_children.psimps)
  next
    case (Some child)
    obtain eq child' where cde: "CachedDeepEqual child = (eq, child')"
      by (cases "CachedDeepEqual child")
    have n: "nodes child' = nodes child"
      using 3(2) [OF Some] cde by simp
    have upd: "nodes_sum (AList.update k child' cs) = nodes_sum cs"
      by (rule nodes_sum_update [OF Some n])
    show ?thesis
    proof (cases eq)
      case True
      have "nodes_sum (snd (compare_children ks (AList.update k child' cs)))
              = nodes_sum (AList.update k child' cs)"
        by (rule 3(3) [OF Some refl cde [symmetric] refl]) (simp add: True)
      with 3(1) Some cde True upd show ?thesis
        by (simp add: compare_children.psimps)
    next
      case False
      with 3(1) Some cde upd show ?thesis
        by (simp add: compare_children.psimps)
    qed
  qed
qed

termination CachedDeepEqual
proof (relation "measures
    [\<lambda>x. case x of Inl r \<Rightarrow> nodes r | Inr (ks, cs) \<Rightarrow> nodes_sum cs,
     \<lambda>x. case x of Inl r \<Rightarrow> 0 | Inr (ks, cs) \<Rightarrow> Suc (length ks)]", goal_cases)
  case 1
  show ?case by simp
next
  case (2 r)
  then show ?case by (simp add: nodes_children [of r])
next
  case (3 r)
  then show ?case by (simp add: nodes_children [of r])
next
  case 4
  then show ?case
    by (auto dest: nodes_sum_lookup)
next
  case (5 k ks cs child x eq child' cs')
  have "nodes (snd x) = nodes child"
    unfolding 5(2) by (rule CachedDeepEqual_nodes_partial(1) [OF 5(6)])
  with 5(3) have "nodes child' = nodes child"
    by (cases x) simp
  then have "nodes_sum cs' = nodes_sum cs"
    unfolding 5(4) by (rule nodes_sum_update [OF 5(1)])
  then show ?case by simp
qed

subsection \<open>Navigation\<close>

text \<open>\<^verbatim>\<open>Key\<close>, on a receiver that may be nil: the child (nil when there is none) and the
  receiver after the call.  The map reads \<^verbatim>\<open>oldAsMap[field]\<close> and
  \<^verbatim>\<open>newAsMap[field]\<close> are comma-ok lookups.\<close>

definition Key ::
  "CorrelatedObject option \<Rightarrow> string \<Rightarrow> CorrelatedObject option \<times> CorrelatedObject option" where
  "Key l field =
     (case l of
        None \<Rightarrow> (None, l)
      | Some n \<Rightarrow>
         (case Schema n of
            None \<Rightarrow> (None, l)
          | Some schema \<Rightarrow>
             (case map_of (children n) (KStr field) of
                Some existing \<Rightarrow> (Some existing, l)
              | None \<Rightarrow>
                 (let (oldAsMap, okOld) = asMap (OldValue n);
                      (newAsMap, okNew) = asMap (Value n)
                  in if \<not> okOld \<or> \<not> okNew then (None, l)
                     else
                       (case map_of oldAsMap field of
                          None \<Rightarrow> (None, l)
                        | Some oldValueForField \<Rightarrow>
                           (case map_of newAsMap field of
                              None \<Rightarrow> (None, l)
                            | Some newValueForField \<Rightarrow>
                               (case (case map_of (Properties schema) field of
                                        Some prop \<Rightarrow> Some prop
                                      | None \<Rightarrow>
                                         (case AdditionalProperties schema of
                                            None \<Rightarrow> None
                                          | Some addP \<Rightarrow> sob_Schema addP)) of
                                  None \<Rightarrow> (None, l)
                                | Some propertySchema \<Rightarrow>
                                   (let res = NewCorrelatedObject newValueForField
                                                oldValueForField (Some propertySchema)
                                    in (Some res,
                                        Some (set_children
                                                (AList.update (KStr field) res (children n))
                                                n))))))))))"

text \<open>\<^verbatim>\<open>Index\<close>, likewise; it can panic where
  \<^verbatim>\<open>correlateOldValueForChildAtNewIndex\<close> or the read \<^verbatim>\<open>asList[i]\<close> does.\<close>

definition Index ::
  "CorrelatedObject option \<Rightarrow> int \<Rightarrow>
   panic + (CorrelatedObject option \<times> CorrelatedObject option)" where
  "Index l i =
     (case l of
        None \<Rightarrow> Inr (None, l)
      | Some n \<Rightarrow>
         (case Schema n of
            None \<Rightarrow> Inr (None, l)
          | Some schema \<Rightarrow>
             (case map_of (children n) (KInt i) of
                Some existing \<Rightarrow> Inr (Some existing, l)
              | None \<Rightarrow>
                 (let (asList', ok) = asList (Value n)
                  in if \<not> ok \<or> int (length asList') \<le> i then Inr (None, l)
                     else
                       (case correlateOldValueForChildAtNewIndex n i of
                          Inl p \<Rightarrow> Inl p
                        | Inr (oldValueForIndex, n') \<Rightarrow>
                           if oldValueForIndex = VNull then Inr (None, Some n')
                           else
                             (case (case Items schema of
                                      None \<Rightarrow> None
                                    | Some items \<Rightarrow> soa_Schema items) of
                                None \<Rightarrow> Inr (None, Some n')
                              | Some itemSchema \<Rightarrow>
                                 (case index_slice asList' i of
                                    Inl p \<Rightarrow> Inl p
                                  | Inr v \<Rightarrow>
                                     (let res = NewCorrelatedObject v oldValueForIndex
                                                  (Some itemSchema)
                                      in Inr (Some res,
                                              Some (set_children
                                                      (AList.update (KInt i) res (children n'))
                                                      n'))))))))))"

subsection \<open>The ratcheting validator and the hooks\<close>

text \<open>The arguments of kube-openapi's \<^verbatim>\<open>NewSchemaValidator\<close>.  The root schema
  (an \<^verbatim>\<open>interface{}\<close>), the format registry and the caller's options are only passed
  on, never inspected; an option is either one of the caller's (an opaque token) or the
  one \<^verbatim>\<open>getValidateOption\<close> builds, which installs the two hooks below.\<close>

datatype Registry = MkRegistry "string list"

datatype validate_Option = CallerOption nat | RatchetingHooks

record schemaArgs =
  schema :: "Schema option"
  root :: "Schema option"
  path :: string
  knownFormats :: Registry
  options :: "validate_Option list"

text \<open>\<^verbatim>\<open>ratchetingValueValidator\<close> embeds \<^verbatim>\<open>schemaArgs\<close> and points to its node.  The
  pointer is never nil: the two places that build a validator pass a node just made by
  \<^verbatim>\<open>NewCorrelatedObject\<close> or a child that was checked against nil.\<close>

record ratchetingValueValidator = schemaArgs +
  correlation :: CorrelatedObject

definition newRatchetingValueValidator ::
  "CorrelatedObject \<Rightarrow> schemaArgs \<Rightarrow> ratchetingValueValidator" where
  "newRatchetingValueValidator c args =
     \<lparr>schema = schema args, root = root args, path = path args,
      knownFormats = knownFormats args, options = options args, correlation = c\<rparr>"

text \<open>Modelled from the spec: kube-openapi's \<^verbatim>\<open>validate.Result\<close> and its methods are not
  among the source files.  The spec: a validation result consists of an ordered list of
  errors and a separate ordered list of warnings; a result reports no failures when it
  has no error; reclassifying as warnings moves every error of the merged result to the
  warnings of the receiver.\<close>

record Result =
  Errors :: "string list"
  Warnings :: "string list"

definition IsValid :: "Result \<Rightarrow> bool" where
  "IsValid res = (Errors res = [])"

definition MergeAsWarnings :: "Result \<Rightarrow> Result \<Rightarrow> Result" where
  "MergeAsWarnings r other = r\<lparr>Warnings := Warnings r @ Errors other @ Warnings other\<rparr>"

text \<open>Modelled from the spec: the schema validation engine is an external collaborator.
  \<^verbatim>\<open>NewSchemaValidator\<close> is the engine's own validator for the given arguments, and a
  run of the engine is a parameter of the model: given the validator and the correlation
  node its hooks act on, it returns the result and the node after the traversal.\<close>

datatype SchemaValidator =
  NewSchemaValidator "Schema option" "Schema option" string Registry "validate_Option list"

type_synonym engine = "SchemaValidator \<Rightarrow> CorrelatedObject \<Rightarrow> Result \<times> CorrelatedObject"

text \<open>The interface \<^verbatim>\<open>validate.ValueValidator\<close>, implemented by the engine's validator
  and by the ratcheting one.\<close>

datatype ValueValidator =
    DefaultValidator SchemaValidator
  | RatchetingValidator ratchetingValueValidator

definition getValidateOption :: "ratchetingValueValidator \<Rightarrow> validate_Option" where
  "getValidateOption r = RatchetingHooks"

text \<open>\<^verbatim>\<open>ratchetingValueValidator.Validate\<close>: the result, and the validator with its node
  as the engine and \<^verbatim>\<open>CachedDeepEqual\<close> left it.\<close>

definition Validate ::
  "engine \<Rightarrow> ratchetingValueValidator \<Rightarrow> Result \<times> ratchetingValueValidator" where
  "Validate sv_Validate r =
     (let opts = getValidateOption r # options r;
          s = NewSchemaValidator (schema r) (root r) (path r) (knownFormats r) opts;
          (res, c) = sv_Validate s (correlation r)
      in if IsValid res then (res, r\<lparr>correlation := c\<rparr>)
         else
           (let (eq, c') = CachedDeepEqual c
            in if eq then
                 (let newRes = \<lparr>Errors = [], Warnings = []\<rparr>
                  in (MergeAsWarnings newRes res, r\<lparr>correlation := c'\<rparr>))
               else (res, r\<lparr>correlation := c'\<rparr>)))"

text \<open>The hooks.  Each returns the validator for the child and the receiver, whose node
  the lookup may have extended.  \<^verbatim>\<open>Key\<close> and \<^verbatim>\<open>Index\<close> are called on a non-nil
  receiver here and return it non-nil.\<close>

definition SubPropertyValidator ::
  "ratchetingValueValidator \<Rightarrow> string \<Rightarrow> Schema option \<Rightarrow> Schema option \<Rightarrow> string \<Rightarrow>
   Registry \<Rightarrow> validate_Option list \<Rightarrow> ValueValidator \<times> ratchetingValueValidator" where
  "SubPropertyValidator r field schema' rootSchema root' formats options' =
     (let (childNode, l) = Key (Some (correlation r)) field;
          r' = (case l of None \<Rightarrow> r | Some n \<Rightarrow> r\<lparr>correlation := n\<rparr>)
      in case childNode of
           None \<Rightarrow>
             (DefaultValidator (NewSchemaValidator schema' rootSchema root' formats options'), r')
         | Some child \<Rightarrow>
             (RatchetingValidator
                (newRatchetingValueValidator child
                   \<lparr>schema = schema', root = rootSchema, path = root',
                    knownFormats = formats, options = options'\<rparr>), r'))"

definition SubIndexValidator ::
  "ratchetingValueValidator \<Rightarrow> int \<Rightarrow> Schema option \<Rightarrow> Schema option \<Rightarrow> string \<Rightarrow>
   Registry \<Rightarrow> validate_Option list \<Rightarrow> panic + (ValueValidator \<times> ratchetingValueValidator)" where
  "SubIndexValidator r index schema' rootSchema root' formats options' =
     (case Index (Some (correlation r)) index of
        Inl p \<Rightarrow> Inl p
      | Inr (childNode, l) \<Rightarrow>
         (let r' = (case l of None \<Rightarrow> r | Some n \<Rightarrow> r\<lparr>correlation := n\<rparr>)
          in case childNode of
               None \<Rightarrow>
                 Inr (DefaultValidator
                        (NewSchemaValidator schema' rootSchema root' formats options'), r')
             | Some child \<Rightarrow>
                 Inr (RatchetingValidator
                        (newRatchetingValueValidator child
                           \<lparr>schema = schema', root = rootSchema, path = root',
                            knownFormats = formats, options = options'\<rparr>), r')))"

text \<open>\<^verbatim>\<open>SetPath\<close> has a value receiver and an empty body; \<^verbatim>\<open>Applies\<close> ignores its
  arguments (the source, here a decoded value, and the \<^verbatim>\<open>reflect.Kind\<close>, here its
  number).\<close>

definition SetPath :: "ratchetingValueValidator \<Rightarrow> string \<Rightarrow> ratchetingValueValidator" where
  "SetPath f path' = f"

definition Applies :: "ratchetingValueValidator \<Rightarrow> val \<Rightarrow> nat \<Rightarrow> bool" where
  "Applies f source valueKind = True"

text \<open>\<^verbatim>\<open>RatchetingSchemaValidator.ValidateUpdate\<close>: a fresh tree for the pair, validated
  at the root.\<close>

definition ValidateUpdate :: "engine \<Rightarrow> schemaArgs \<Rightarrow> val \<Rightarrow> val \<Rightarrow> Result" where
  "ValidateUpdate sv_Validate r new old =
     fst (Validate sv_Validate
            (newRatchetingValueValidator (NewCorrelatedObject new old (schema r)) r))"

subsection \<open>The reference algorithm for cached equality\<close>

text \<open>The five steps by which the specification describes cached equality, as a
  function of the node alone (no state is threaded; a result already cached is reused):
  both values null, equal; exactly one null, not equal; both lists, not equal if the
  lengths differ or the number of populated children differs from the list length, else
  equal iff every index's child is equal; both maps, not equal if the key counts differ,
  equal if both are empty, not equal if the number of populated children differs from the
  key count, else equal iff the child of every key (of the old map) is equal; mixed
  shapes, not equal; two scalars, equal iff they are the same value of the same type.\<close>

lemma nodes_child_less: "map_of (children r) k = Some c \<Longrightarrow> nodes c < nodes r"
  using nodes_sum_lookup [of "children r" k c] by (simp add: nodes_children [of r])

fun elements :: "val \<Rightarrow> val list option" where
  "elements (VList xs) = Some xs"
| "elements _ = None"

fun entries :: "val \<Rightarrow> (string \<times> val) list option" where
  "entries (VMap m) = Some m"
| "entries _ = None"

function reference_equal :: "CorrelatedObject \<Rightarrow> bool" where
  "reference_equal r =
     (case comparisonResult r of
        Some b \<Rightarrow> b
      | None \<Rightarrow>
         (if OldValue r = VNull \<and> Value r = VNull then True
          else if OldValue r = VNull \<or> Value r = VNull then False
          else
            (case (elements (OldValue r), elements (Value r)) of
               (Some old, Some new) \<Rightarrow>
                 (if length old \<noteq> length new then False
                  else if length (children r) \<noteq> length new then False
                  else list_all
                         (\<lambda>i. case map_of (children r) (KInt (int i)) of
                                 None \<Rightarrow> False
                               | Some child \<Rightarrow> reference_equal child)
                         [0..<length new])
             | (Some old, None) \<Rightarrow> False
             | (None, Some new) \<Rightarrow> False
             | (None, None) \<Rightarrow>
                 (case (entries (OldValue r), entries (Value r)) of
                    (Some old, Some new) \<Rightarrow>
                      (if length old \<noteq> length new then False
                       else if old = [] \<and> new = [] then True
                       else if length (children r) \<noteq> length old then False
                       else list_all
                              (\<lambda>k. case map_of (children r) (KStr k) of
                                      None \<Rightarrow> False
                                    | Some child \<Rightarrow> reference_equal child)
                              (map fst old))
                  | (Some old, None) \<Rightarrow> False
                  | (None, Some new) \<Rightarrow> False
                  | (None, None) \<Rightarrow> OldValue r = Value r))))"
  by pat_completeness auto
termination
  by (relation "measure nodes") (auto dest: nodes_child_less)

section \<open>Basic facts\<close>

declare CachedDeepEqual.simps [simp del]

text \<open>The part of \<^verbatim>\<open>CachedDeepEqual\<close> between the cache check and the deferred store,
  named so that the recursion equation can be used in steps.\<close>

definition compare_values :: "CorrelatedObject \<Rightarrow> bool \<times> (ckey \<times> CorrelatedObject) list" where
  "compare_values r =
           (if Value r = VNull \<and> OldValue r = VNull then (True, children r)
            else if Value r = VNull \<or> OldValue r = VNull then (False, children r)
            else
              (let (oldAsArray, oldIsArray) = asList (OldValue r);
                   (newAsArray, newIsArray) = asList (Value r)
               in if oldIsArray \<noteq> newIsArray then (False, children r)
                  else if oldIsArray then
                    (if length oldAsArray \<noteq> length newAsArray then (False, children r)
                     else if length (children r) \<noteq> length oldAsArray then (False, children r)
                     else compare_children
                            (map (\<lambda>i. KInt (int i)) [0..<length newAsArray]) (children r))
                  else
                    (let (oldAsMap, oldIsMap) = asMap (OldValue r);
                         (newAsMap, newIsMap) = asMap (Value r)
                     in if oldIsMap \<noteq> newIsMap then (False, children r)
                        else if oldIsMap then
                          (if length oldAsMap \<noteq> length newAsMap then (False, children r)
                           else if length oldAsMap = 0 \<and> length newAsMap = 0
                             then (True, children r)
                           else if length (children r) \<noteq> length oldAsMap
                             then (False, children r)
                           else compare_children
                                  (map (\<lambda>p. KStr (fst p)) oldAsMap) (children r))
                        else (DeepEqual (OldValue r) (Value r), children r))))"

lemma CachedDeepEqual_unfold:
  "CachedDeepEqual r =
    (case comparisonResult r of
       Some b \<Rightarrow> (b, r)
     | None \<Rightarrow> (let (res, cs) = compare_values r
                in (res, set_comparisonResult (Some res) (set_children cs r))))"
  unfolding compare_values_def by (rule CachedDeepEqual.simps)

lemma CachedDeepEqual_cached: "comparisonResult r = Some b \<Longrightarrow> CachedDeepEqual r = (b, r)"
  by (simp add: CachedDeepEqual_unfold)

lemma CachedDeepEqual_fresh:
  "comparisonResult r = None \<Longrightarrow>
   CachedDeepEqual r =
     (fst (compare_values r),
      set_comparisonResult (Some (fst (compare_values r)))
        (set_children (snd (compare_values r)) r))"
  by (simp add: CachedDeepEqual_unfold split_beta)

lemma sel_set_comparisonResult [simp]:
  "comparisonResult (set_comparisonResult c r) = c"
  "OldValue (set_comparisonResult c r) = OldValue r"
  "Value (set_comparisonResult c r) = Value r"
  "Schema (set_comparisonResult c r) = Schema r"
  "mapList (set_comparisonResult c r) = mapList r"
  "children (set_comparisonResult c r) = children r"
  by (cases r; simp)+

lemma sel_set_children [simp]:
  "comparisonResult (set_children cs r) = comparisonResult r"
  "OldValue (set_children cs r) = OldValue r"
  "Value (set_children cs r) = Value r"
  "Schema (set_children cs r) = Schema r"
  "mapList (set_children cs r) = mapList r"
  "children (set_children cs r) = cs"
  by (cases r; simp)+

lemma sel_set_mapList [simp]:
  "comparisonResult (set_mapList m r) = comparisonResult r"
  "OldValue (set_mapList m r) = OldValue r"
  "Value (set_mapList m r) = Value r"
  "Schema (set_mapList m r) = Schema r"
  "mapList (set_mapList m r) = m"
  "children (set_mapList m r) = children r"
  by (cases r; simp)+

lemma sel_NewCorrelatedObject [simp]:
  "comparisonResult (NewCorrelatedObject new old s) = None"
  "OldValue (NewCorrelatedObject new old s) = old"
  "Value (NewCorrelatedObject new old s) = new"
  "Schema (NewCorrelatedObject new old s) = s"
  "mapList (NewCorrelatedObject new old s) = None"
  "children (NewCorrelatedObject new old s) = []"
  by (simp_all add: NewCorrelatedObject_def)

lemma set_children_same [simp]: "set_children (children r) r = r"
  by (cases r) simp

lemma CachedDeepEqual_stores:
  "comparisonResult (snd (CachedDeepEqual r)) = Some (fst (CachedDeepEqual r))"
  by (cases "comparisonResult r") (simp_all add: CachedDeepEqual_fresh CachedDeepEqual_cached)

lemma CachedDeepEqual_frame:
  "OldValue (snd (CachedDeepEqual r)) = OldValue r"
  "Value (snd (CachedDeepEqual r)) = Value r"
  "Schema (snd (CachedDeepEqual r)) = Schema r"
  "mapList (snd (CachedDeepEqual r)) = mapList r"
  by (cases "comparisonResult r"; simp add: CachedDeepEqual_fresh CachedDeepEqual_cached)+

declare reference_equal.simps [simp del]

lemma reference_equal_cached: "comparisonResult r = Some b \<Longrightarrow> reference_equal r = b"
  by (subst reference_equal.simps) simp

lemma map_of_update_eq: "map_of (AList.update k v cs) k' = (if k' = k then Some v else map_of cs k')"
  by (simp add: update_conv')

lemma asList_elements: "asList v = (case elements v of Some xs \<Rightarrow> (xs, True) | None \<Rightarrow> ([], False))"
  by (cases v) simp_all

lemma asMap_entries: "asMap v = (case entries v of Some m \<Rightarrow> (m, True) | None \<Rightarrow> ([], False))"
  by (cases v) simp_all

lemma DeepEqual_scalar:
  "elements a = None \<Longrightarrow> entries a = None \<Longrightarrow> DeepEqual a b = (a = b)"
  by (cases a; cases b) auto

lemma CachedDeepEqual_reference_aux:
  "fst (CachedDeepEqual r) = reference_equal r"
  "fst (compare_children ks cs) =
     list_all (\<lambda>k. case map_of cs k of None \<Rightarrow> False | Some c \<Rightarrow> reference_equal c) ks"
proof (induction r and ks cs rule: CachedDeepEqual_compare_children.induct)
  case (1 r)
  note IHa = 1(1) and IHm = 1(2)
  show ?case
  proof (cases "comparisonResult r")
    case (Some b)
    then show ?thesis by (simp add: CachedDeepEqual_cached reference_equal_cached)
  next
    case None
    obtain oa oi where ol: "asList (OldValue r) = (oa, oi)" by force
    obtain na ni where nl: "asList (Value r) = (na, ni)" by force
    obtain om omi where oml: "asMap (OldValue r) = (om, omi)" by force
    obtain nm nmi where nml: "asMap (Value r) = (nm, nmi)" by force
    have A: "fst (compare_children (map (\<lambda>i. KInt (int i)) [0..<length na]) (children r))
               = list_all (\<lambda>k. case map_of (children r) k of None \<Rightarrow> False
                                   | Some c \<Rightarrow> reference_equal c)
                   (map (\<lambda>i. KInt (int i)) [0..<length na])"
      if "\<not> (Value r = VNull \<and> OldValue r = VNull)" "\<not> (Value r = VNull \<or> OldValue r = VNull)"
         "\<not> oi \<noteq> ni" "oi" "\<not> length oa \<noteq> length na" "\<not> length (children r) \<noteq> length oa"
      by (rule IHa [OF None that(1,2) refl ol [symmetric] refl nl [symmetric] that(3-6)])
    have B: "fst (compare_children (map (\<lambda>p. KStr (fst p)) om) (children r))
               = list_all (\<lambda>k. case map_of (children r) k of None \<Rightarrow> False
                                   | Some c \<Rightarrow> reference_equal c)
                   (map (\<lambda>p. KStr (fst p)) om)"
      if "\<not> (Value r = VNull \<and> OldValue r = VNull)" "\<not> (Value r = VNull \<or> OldValue r = VNull)"
         "\<not> oi \<noteq> ni" "\<not> oi" "\<not> omi \<noteq> nmi" "omi" "\<not> length om \<noteq> length nm"
         "\<not> (length om = 0 \<and> length nm = 0)" "\<not> length (children r) \<noteq> length om"
      by (rule IHm [OF None that(1,2) refl ol [symmetric] refl nl [symmetric] that(3,4)
                 refl oml [symmetric] refl nml [symmetric] that(5-9)])
    have lhs: "fst (CachedDeepEqual r) = fst (compare_values r)"
      by (simp add: CachedDeepEqual_fresh [OF None])
    have nn: "\<not> (Value r = VNull \<and> OldValue r = VNull) \<and> \<not> (Value r = VNull \<or> OldValue r = VNull)"
      if "OldValue r \<noteq> VNull" "Value r \<noteq> VNull"
      using that by simp
    have A': "fst (compare_children (map (\<lambda>i. KInt (int i)) [0..<length new]) (children r))
               = list_all (\<lambda>i. case map_of (children r) (KInt (int i)) of None \<Rightarrow> False
                                   | Some c \<Rightarrow> reference_equal c) [0..<length new]"
      if "OldValue r \<noteq> VNull" "Value r \<noteq> VNull"
         "elements (OldValue r) = Some old" "elements (Value r) = Some new"
         "length old = length new" "length (children r) = length new" for old new
      using A nn [OF that(1,2)] that(3-6) ol nl
      by (simp add: asList_elements list.pred_map comp_def)
    have B': "fst (compare_children (map (\<lambda>p. KStr (fst p)) old) (children r))
               = list_all (\<lambda>k. case map_of (children r) (KStr k) of None \<Rightarrow> False
                                   | Some c \<Rightarrow> reference_equal c) (map fst old)"
      if "OldValue r \<noteq> VNull" "Value r \<noteq> VNull"
         "elements (OldValue r) = None" "elements (Value r) = None"
         "entries (OldValue r) = Some old" "entries (Value r) = Some new"
         "length old = length new" "new \<noteq> []" "length (children r) = length new" for old new
    proof -
      from that(7,8) have "old \<noteq> []" by auto
      with B nn [OF that(1,2)] that(3-9) ol nl oml nml show ?thesis
        by (simp add: asList_elements asMap_entries list.pred_map comp_def)
    qed
    have rhs: "reference_equal r = fst (compare_values r)"
      apply (subst reference_equal.simps)
      apply (cases "elements (OldValue r)"; cases "elements (Value r)";
             cases "entries (OldValue r)"; cases "entries (Value r)";
             simp add: None compare_values_def asList_elements asMap_entries A' B'
                       DeepEqual_scalar)
      done
    show ?thesis
      unfolding lhs rhs ..
  qed
next
  case (2 cs)
  show ?case by simp
next
  case (3 k ks cs)
  show ?case
  proof (cases "map_of cs k")
    case None
    then show ?thesis by simp
  next
    case (Some child)
    obtain eq child' where cde: "CachedDeepEqual child = (eq, child')"
      by (cases "CachedDeepEqual child")
    have eq: "reference_equal child = eq"
      using 3(1) [OF Some] cde by simp
    have "comparisonResult child' = Some eq"
      using CachedDeepEqual_stores [of child] cde by simp
    then have eq': "reference_equal child' = eq"
      by (rule reference_equal_cached)
    have same: "(case map_of (AList.update k child' cs) k' of None \<Rightarrow> False
                   | Some c \<Rightarrow> reference_equal c)
              = (case map_of cs k' of None \<Rightarrow> False | Some c \<Rightarrow> reference_equal c)" for k'
      using Some eq eq' by (simp add: map_of_update_eq)
    show ?thesis
    proof (cases eq)
      case True
      have "fst (compare_children ks (AList.update k child' cs))
              = list_all (\<lambda>k'. case map_of (AList.update k child' cs) k' of None \<Rightarrow> False
                                 | Some c \<Rightarrow> reference_equal c) ks"
        by (rule 3(2) [OF Some refl cde [symmetric] refl]) (simp add: True)
      with Some cde True eq show ?thesis
        by (simp add: same)
    next
      case False
      with Some cde eq show ?thesis by simp
    qed
  qed
qed

section \<open>Well-formed correlation trees\<close>

text \<open>The states a correlation tree can be in.  \<open>pristine n\<close> is the node as
  \<^verbatim>\<open>NewCorrelatedObject\<close> made it, its scratch space empty.  In a well-formed node the keys
  of \<^verbatim>\<open>children\<close> are distinct (it is a Go map); a \<^verbatim>\<open>mapList\<close> that is set is the one
  \<^verbatim>\<open>MakeMapList\<close> builds for the node; every memoized child sits where a lookup of its
  key on the pristine node puts a child (same old value, new value and schema); a cached
  comparison of a node without children is the comparison of the pristine node; and the
  children are well-formed.  \<^verbatim>\<open>NewCorrelatedObject\<close> establishes this and \<^verbatim>\<open>Key\<close>,
  \<^verbatim>\<open>Index\<close> and \<^verbatim>\<open>CachedDeepEqual\<close> preserve it (proved below), so it holds of every
  node of a tree built by the program.\<close>

definition pristine :: "CorrelatedObject \<Rightarrow> CorrelatedObject" where
  "pristine n = NewCorrelatedObject (Value n) (OldValue n) (Schema n)"

definition child_correlated :: "CorrelatedObject \<Rightarrow> ckey \<Rightarrow> CorrelatedObject \<Rightarrow> bool" where
  "child_correlated n k c =
     (case k of
        KStr field \<Rightarrow> fst (Key (Some (pristine n)) field) = Some (pristine c)
      | KInt i \<Rightarrow>
         (case Index (Some (pristine n)) i of
            Inl p \<Rightarrow> False
          | Inr (res, l) \<Rightarrow> res = Some (pristine c)))"

definition mapList_ok :: "CorrelatedObject \<Rightarrow> bool" where
  "mapList_ok n =
     (case mapList n of
        None \<Rightarrow> True
      | Some ml \<Rightarrow>
         (case Schema n of
            None \<Rightarrow> False
          | Some s \<Rightarrow> ml = MakeMapList s (fst (asList (OldValue n)))))"

definition cache_ok :: "CorrelatedObject \<Rightarrow> bool" where
  "cache_ok n =
     (case comparisonResult n of
        None \<Rightarrow> True
      | Some b \<Rightarrow> children n \<noteq> [] \<or> b = fst (compare_values (pristine n)))"

fun wf_node :: "CorrelatedObject \<Rightarrow> bool" where
  "wf_node (MkCorrelatedObject ov nv s c m cs) =
     (distinct (map fst cs) \<and>
      mapList_ok (MkCorrelatedObject ov nv s c m cs) \<and>
      cache_ok (MkCorrelatedObject ov nv s c m cs) \<and>
      list_all (\<lambda>p. child_correlated (MkCorrelatedObject ov nv s c m cs) (fst p) (snd p) \<and>
                     wf_node (snd p)) cs)"

lemma wf_node_iff:
  "wf_node n \<longleftrightarrow>
     distinct (map fst (children n)) \<and> mapList_ok n \<and> cache_ok n \<and>
     (\<forall>(k, c) \<in> set (children n). child_correlated n k c \<and> wf_node c)"
  by (cases n) (auto simp: list_all_iff)

declare wf_node.simps [simp del]

lemma pristine_sel [simp]:
  "OldValue (pristine n) = OldValue n" "Value (pristine n) = Value n"
  "Schema (pristine n) = Schema n" "children (pristine n) = []"
  "mapList (pristine n) = None" "comparisonResult (pristine n) = None"
  by (simp_all add: pristine_def)

lemma pristine_eq_iff:
  "pristine a = pristine b \<longleftrightarrow> OldValue a = OldValue b \<and> Value a = Value b \<and> Schema a = Schema b"
  by (auto simp: pristine_def NewCorrelatedObject_def)

lemma pristine_idem [simp]: "pristine (pristine n) = pristine n"
  by (simp add: pristine_eq_iff)

lemma pristine_set [simp]:
  "pristine (set_children cs n) = pristine n"
  "pristine (set_mapList m n) = pristine n"
  "pristine (set_comparisonResult b n) = pristine n"
  by (simp_all add: pristine_eq_iff)

lemma pristine_New [simp]: "pristine (NewCorrelatedObject new old s) = NewCorrelatedObject new old s"
  by (simp add: pristine_def)

lemma child_correlated_pristine:
  "pristine n = pristine n' \<Longrightarrow> pristine c = pristine c' \<Longrightarrow>
   child_correlated n k c = child_correlated n' k c'"
  by (cases k) (auto simp: child_correlated_def split: sum.splits)

theorem wf_NewCorrelatedObject: "wf_node (NewCorrelatedObject new old s)"
  by (subst wf_node_iff) (simp add: mapList_ok_def cache_ok_def)

text \<open>The schema \<^verbatim>\<open>Key\<close> gives a child (the declared property, else the additional
  properties), the one \<^verbatim>\<open>Index\<close> gives (the items schema), and the list type
  \<^verbatim>\<open>correlateOldValueForChildAtNewIndex\<close> switches on: names for the expressions that
  stand inline in the definitions above.\<close>
definition property_schema :: "Schema \<Rightarrow> string \<Rightarrow> Schema option" where
  "property_schema s field =
     (case map_of (Properties s) field of
        Some prop \<Rightarrow> Some prop
      | None \<Rightarrow> (case AdditionalProperties s of None \<Rightarrow> None | Some addP \<Rightarrow> sob_Schema addP))"

definition item_schema :: "Schema \<Rightarrow> Schema option" where
  "item_schema s = (case Items s of None \<Rightarrow> None | Some items \<Rightarrow> soa_Schema items)"

lemma Key_fresh:
  assumes "Schema n = Some s" "map_of (children n) (KStr field) = None"
  shows "Key (Some n) field =
     (case (entries (OldValue n), entries (Value n)) of
        (Some om, Some nm) \<Rightarrow>
          (case (map_of om field, map_of nm field, property_schema s field) of
             (Some ov, Some nv, Some ps) \<Rightarrow>
               (Some (NewCorrelatedObject nv ov (Some ps)),
                Some (set_children
                        (AList.update (KStr field) (NewCorrelatedObject nv ov (Some ps))
                           (children n)) n))
           | _ \<Rightarrow> (None, Some n))
      | _ \<Rightarrow> (None, Some n))"
  using assms
  by (cases "entries (OldValue n)"; cases "entries (Value n)")
     (simp_all add: Key_def property_schema_def asMap_entries Let_def split: option.splits)

lemma Key_memo:
  "Schema n = Some s \<Longrightarrow> map_of (children n) (KStr field) = Some c \<Longrightarrow>
   Key (Some n) field = (Some c, Some n)"
  by (simp add: Key_def)

lemma Key_no_schema: "Schema n = None \<Longrightarrow> Key (Some n) field = (None, Some n)"
  by (simp add: Key_def)

lemma Key_nil: "Key None field = (None, None)"
  by (simp add: Key_def)


definition listType :: "Schema \<Rightarrow> string" where
  "listType s = fst (GetString (Extensions s) ''x-kubernetes-list-type'')"

lemma correlate_unfold:
  assumes "Schema n = Some s" "elements (Value n) = Some nl" "i < int (length nl)"
  shows "correlateOldValueForChildAtNewIndex n i =
     (case elements (OldValue n) of
        None \<Rightarrow> Inr (VNull, n)
      | Some ol \<Rightarrow>
          if listType s = ''map'' then
            (case index_slice nl i of
               Inl p \<Rightarrow> Inl p
             | Inr currentElement \<Rightarrow>
                 (case mapList n of
                    None \<Rightarrow> Inr (Get (MakeMapList s ol) currentElement,
                                 set_mapList (Some (MakeMapList s ol)) n)
                  | Some ml \<Rightarrow> Inr (Get ml currentElement, n)))
          else if listType s = ''set'' \<or> listType s = ''atomic'' then Inr (VNull, n)
          else if int (length ol) \<le> i then Inr (VNull, n)
          else (case index_slice ol i of Inl p \<Rightarrow> Inl p | Inr v \<Rightarrow> Inr (v, n)))"
  using assms
  by (cases "elements (OldValue n)")
     (simp_all add: correlateOldValueForChildAtNewIndex_def asList_elements listType_def
        Let_def split_beta cong: sum.case_cong option.case_cong)

lemma correlate_frame:
  assumes "correlateOldValueForChildAtNewIndex n i = Inr (ov, n')"
  shows "pristine n' = pristine n" "children n' = children n"
        "comparisonResult n' = comparisonResult n"
        "mapList_ok n \<Longrightarrow> mapList_ok n'"
  using assms
  by (auto simp: correlateOldValueForChildAtNewIndex_def Let_def split_beta mapList_ok_def
           split: if_splits option.splits sum.splits)

lemma correlate_pristine:
  assumes "mapList_ok n" "correlateOldValueForChildAtNewIndex n i = Inr (ov, n')"
  shows "\<exists>m. correlateOldValueForChildAtNewIndex (pristine n) i = Inr (ov, m)"
  using assms
  by (auto simp: correlateOldValueForChildAtNewIndex_def Let_def split_beta mapList_ok_def
           split: if_splits option.splits sum.splits)

lemma Index_fresh:
  assumes "Schema n = Some s" "map_of (children n) (KInt i) = None"
  shows "Index (Some n) i =
     (case elements (Value n) of
        None \<Rightarrow> Inr (None, Some n)
      | Some nl \<Rightarrow>
          if int (length nl) \<le> i then Inr (None, Some n)
          else
            (case correlateOldValueForChildAtNewIndex n i of
               Inl p \<Rightarrow> Inl p
             | Inr (ov, n') \<Rightarrow>
                 if ov = VNull then Inr (None, Some n')
                 else
                   (case item_schema s of
                      None \<Rightarrow> Inr (None, Some n')
                    | Some itemSchema \<Rightarrow>
                       (case index_slice nl i of
                          Inl p \<Rightarrow> Inl p
                        | Inr v \<Rightarrow>
                           Inr (Some (NewCorrelatedObject v ov (Some itemSchema)),
                                Some (set_children
                                        (AList.update (KInt i)
                                           (NewCorrelatedObject v ov (Some itemSchema))
                                           (children n')) n'))))))"
  using assms
  by (cases "elements (Value n)")
     (simp_all add: Index_def asList_elements item_schema_def Let_def
        cong: sum.case_cong option.case_cong prod.case_cong if_cong)

lemma Index_memo:
  "Schema n = Some s \<Longrightarrow> map_of (children n) (KInt i) = Some c \<Longrightarrow>
   Index (Some n) i = Inr (Some c, Some n)"
  by (simp add: Index_def)

lemma Index_no_schema: "Schema n = None \<Longrightarrow> Index (Some n) i = Inr (None, Some n)"
  by (simp add: Index_def)

lemma Index_nil: "Index None i = Inr (None, None)"
  by (simp add: Index_def)


lemma update_fresh: "map_of cs k = None \<Longrightarrow> AList.update k v cs = cs @ [(k, v)]"
  by (induction cs) (auto split: if_splits)

lemma wf_nodeD:
  assumes "wf_node n"
  shows "distinct (map fst (children n))" "mapList_ok n" "cache_ok n"
    and "map_of (children n) k = Some c \<Longrightarrow> child_correlated n k c"
    and "map_of (children n) k = Some c \<Longrightarrow> wf_node c"
  using assms wf_node_iff [of n] by (auto dest: map_of_SomeD)

lemma wf_nodeI:
  assumes "distinct (map fst (children n))" "mapList_ok n" "cache_ok n"
    and "\<And>k c. (k, c) \<in> set (children n) \<Longrightarrow> child_correlated n k c"
    and "\<And>k c. (k, c) \<in> set (children n) \<Longrightarrow> wf_node c"
  shows "wf_node n"
  using assms wf_node_iff [of n] by auto

lemma mapList_ok_cong:
  "mapList n' = mapList n \<Longrightarrow> pristine n' = pristine n \<Longrightarrow> mapList_ok n' = mapList_ok n"
  by (simp add: mapList_ok_def pristine_eq_iff cong: option.case_cong)

lemma Key_pristine_new:
  assumes "Schema n = Some s" "entries (OldValue n) = Some om" "entries (Value n) = Some nm"
    "map_of om field = Some ov" "map_of nm field = Some nv" "property_schema s field = Some ps"
  shows "fst (Key (Some (pristine n)) field) = Some (NewCorrelatedObject nv ov (Some ps))"
  using assms by (simp add: Key_fresh [where s = s])

theorem Key_preserves_wf:
  assumes wf: "wf_node n" and key: "Key (Some n) field = (res, l)"
  shows "\<exists>n'. l = Some n' \<and> wf_node n' \<and> pristine n' = pristine n \<and>
           (\<forall>c. res = Some c \<longrightarrow> wf_node c \<and> map_of (children n') (KStr field) = Some c)"
proof (cases "Schema n")
  case None
  with key wf show ?thesis by (auto simp: Key_no_schema)
next
  case (Some s)
  show ?thesis
  proof (cases "map_of (children n) (KStr field)")
    case memo: (Some c)
    with key Some wf show ?thesis
      by (auto simp: Key_memo dest: wf_nodeD(5))
  next
    case fresh: None
    note kf = Key_fresh [OF Some fresh]
    show ?thesis
    proof (cases "res")
      case None
      with key kf have "l = Some n"
        by (auto split: option.splits prod.splits)
      with wf None show ?thesis by simp
    next
      case res: (Some c)
      from key kf res obtain om nm ov nv ps where
        e: "entries (OldValue n) = Some om" "entries (Value n) = Some nm"
           "map_of om field = Some ov" "map_of nm field = Some nv"
           "property_schema s field = Some ps"
        and c: "c = NewCorrelatedObject nv ov (Some ps)"
        and l: "l = Some (set_children (AList.update (KStr field) c (children n)) n)"
        by (auto split: option.splits prod.splits)
      let ?n' = "set_children (AList.update (KStr field) c (children n)) n"
      have ch: "children ?n' = children n @ [(KStr field, c)]"
        by (simp add: update_fresh [OF fresh])
      have cc: "child_correlated n (KStr field) c"
        using Key_pristine_new [OF Some e] by (simp add: child_correlated_def c)
      have wfc: "wf_node c" unfolding c by (rule wf_NewCorrelatedObject)
      have "wf_node ?n'"
      proof (rule wf_nodeI)
        show "distinct (map fst (children ?n'))"
          using wf_nodeD(1) [OF wf] by (simp add: distinct_update)
        show "mapList_ok ?n'"
          using wf_nodeD(2) [OF wf] by (simp add: mapList_ok_cong [of ?n' n])
        show "cache_ok ?n'"
          by (simp add: cache_ok_def ch split: option.splits)
      next
        fix k c' assume "(k, c') \<in> set (children ?n')"
        then consider "(k, c') \<in> set (children n)" | "k = KStr field" "c' = c"
          unfolding ch by auto
        then show "child_correlated ?n' k c'"
        proof cases
          case 1
          then have "map_of (children n) k = Some c'"
            using wf_nodeD(1) [OF wf] by simp
          from wf_nodeD(4) [OF wf this] show ?thesis
            by (simp add: child_correlated_pristine [of ?n' n c' c'])
        next
          case 2
          with cc show ?thesis
            by (simp add: child_correlated_pristine [of ?n' n c c])
        qed
      next
        fix k c' assume "(k, c') \<in> set (children ?n')"
        then consider "(k, c') \<in> set (children n)" | "k = KStr field" "c' = c"
          unfolding ch by auto
        then show "wf_node c'"
        proof cases
          case 1
          then have "map_of (children n) k = Some c'"
            using wf_nodeD(1) [OF wf] by simp
          from wf_nodeD(5) [OF wf this] show ?thesis .
        next
          case 2
          with wfc show ?thesis by simp
        qed
      qed
      moreover have "map_of (children ?n') (KStr field) = Some c"
        by (simp add: map_of_update_eq)
      ultimately show ?thesis using l res wfc by simp
    qed
  qed
qed


lemma cache_ok_cong:
  "comparisonResult n' = comparisonResult n \<Longrightarrow> children n' = children n \<Longrightarrow>
   pristine n' = pristine n \<Longrightarrow> cache_ok n' = cache_ok n"
  by (simp add: cache_ok_def cong: option.case_cong)

lemma wf_node_scratch:
  assumes "wf_node n" "pristine n' = pristine n" "children n' = children n"
    "comparisonResult n' = comparisonResult n" "mapList_ok n'"
  shows "wf_node n'"
proof (rule wf_nodeI)
  show "distinct (map fst (children n'))" using wf_nodeD(1) [OF assms(1)] assms(3) by simp
  show "mapList_ok n'" by fact
  show "cache_ok n'" using wf_nodeD(3) [OF assms(1)] cache_ok_cong [OF assms(4,3,2)] by simp
next
  fix k c assume "(k, c) \<in> set (children n')"
  then have m: "map_of (children n) k = Some c"
    using wf_nodeD(1) [OF assms(1)] assms(3) by simp
  show "child_correlated n' k c"
    using wf_nodeD(4) [OF assms(1) m] child_correlated_pristine [OF assms(2) refl] by simp
  show "wf_node c" by (rule wf_nodeD(5) [OF assms(1) m])
qed

lemma wf_node_add_child:
  assumes wf: "wf_node n" and fresh: "map_of (children n) k = None"
    and cc: "child_correlated n k c" and wfc: "wf_node c"
  shows "wf_node (set_children (AList.update k c (children n)) n)"
proof -
  let ?n' = "set_children (AList.update k c (children n)) n"
  have ch: "children ?n' = children n @ [(k, c)]"
    by (simp add: update_fresh [OF fresh])
  show ?thesis
  proof (rule wf_nodeI)
    show "distinct (map fst (children ?n'))"
      using wf_nodeD(1) [OF wf] by (simp add: distinct_update)
    show "mapList_ok ?n'"
      using wf_nodeD(2) [OF wf] by (simp add: mapList_ok_cong [of ?n' n])
    show "cache_ok ?n'"
      by (simp add: cache_ok_def ch split: option.splits)
  next
    fix k' c' assume "(k', c') \<in> set (children ?n')"
    then consider "(k', c') \<in> set (children n)" | "k' = k" "c' = c"
      unfolding ch by auto
    then show "child_correlated ?n' k' c'"
    proof cases
      case 1
      then have "map_of (children n) k' = Some c'"
        using wf_nodeD(1) [OF wf] by simp
      from wf_nodeD(4) [OF wf this] show ?thesis
        by (simp add: child_correlated_pristine [of ?n' n c' c'])
    next
      case 2
      with cc show ?thesis
        by (simp add: child_correlated_pristine [of ?n' n c c])
    qed
  next
    fix k' c' assume "(k', c') \<in> set (children ?n')"
    then consider "(k', c') \<in> set (children n)" | "k' = k" "c' = c"
      unfolding ch by auto
    then show "wf_node c'"
    proof cases
      case 1
      then have "map_of (children n) k' = Some c'"
        using wf_nodeD(1) [OF wf] by simp
      from wf_nodeD(5) [OF wf this] show ?thesis .
    next
      case 2
      with wfc show ?thesis by simp
    qed
  qed
qed

theorem Index_preserves_wf:
  assumes wf: "wf_node n" and idx: "Index (Some n) i = Inr (res, l)"
  shows "\<exists>n'. l = Some n' \<and> wf_node n' \<and> pristine n' = pristine n \<and>
           (\<forall>c. res = Some c \<longrightarrow> wf_node c \<and> map_of (children n') (KInt i) = Some c)"
proof (cases "Schema n")
  case None
  with idx wf show ?thesis by (auto simp: Index_no_schema)
next
  case (Some s)
  show ?thesis
  proof (cases "map_of (children n) (KInt i)")
    case memo: (Some c)
    with idx Some wf show ?thesis
      by (auto simp: Index_memo dest: wf_nodeD(5))
  next
    case fresh: None
    note xf = Index_fresh [OF Some fresh]
    show ?thesis
    proof (cases "elements (Value n)")
      case None
      with idx xf wf show ?thesis by auto
    next
      case nl: (Some nl)
      show ?thesis
      proof (cases "int (length nl) \<le> i")
        case True
        with idx xf nl wf show ?thesis by auto
      next
        case False
        with idx xf nl obtain ov n1 where
          cor: "correlateOldValueForChildAtNewIndex n i = Inr (ov, n1)"
          by (auto split: sum.splits)
        note fr = correlate_frame [OF cor]
        have wf1: "wf_node n1"
          by (rule wf_node_scratch [OF wf fr(1,2,3) fr(4) [OF wf_nodeD(2) [OF wf]]])
        have fresh1: "map_of (children n1) (KInt i) = None"
          using fresh fr(2) by simp
        show ?thesis
        proof (cases "res")
          case None
          with idx xf nl False cor have "l = Some n1"
            by (auto split: option.splits sum.splits if_splits)
          with wf1 fr(1) None show ?thesis by simp
        next
          case res: (Some c)
          from idx xf nl False cor res obtain isch v where
            ov: "ov \<noteq> VNull" and isch: "item_schema s = Some isch"
            and v: "index_slice nl i = Inr v"
            and c: "c = NewCorrelatedObject v ov (Some isch)"
            and l: "l = Some (set_children (AList.update (KInt i) c (children n1)) n1)"
            by (auto split: option.splits sum.splits if_splits)
          obtain m where corp: "correlateOldValueForChildAtNewIndex (pristine n) i = Inr (ov, m)"
            using correlate_pristine [OF wf_nodeD(2) [OF wf] cor] by blast
          have "Index (Some (pristine n)) i
                  = Inr (Some c, Some (set_children (AList.update (KInt i) c (children m)) m))"
            using Some nl False corp ov isch v c
            by (simp add: Index_fresh [where s = s])
          then have "child_correlated n (KInt i) c"
            by (simp add: child_correlated_def c)
          then have cc: "child_correlated n1 (KInt i) c"
            by (simp add: child_correlated_pristine [OF fr(1) refl])
          have wfc: "wf_node c" unfolding c by (rule wf_NewCorrelatedObject)
          have "wf_node (set_children (AList.update (KInt i) c (children n1)) n1)"
            by (rule wf_node_add_child [OF wf1 fresh1 cc wfc])
          moreover have "map_of (children (set_children (AList.update (KInt i) c (children n1)) n1))
                           (KInt i) = Some c"
            by (simp add: map_of_update_eq)
          ultimately show ?thesis using l res wfc fr(1) by simp
        qed
      qed
    qed
  qed
qed


definition same_children ::
  "(ckey \<times> CorrelatedObject) list \<Rightarrow> (ckey \<times> CorrelatedObject) list \<Rightarrow> bool" where
  "same_children cs cs' =
     list_all2 (\<lambda>p p'. fst p' = fst p \<and> pristine (snd p') = pristine (snd p)) cs cs'"

lemma same_children_refl [simp]: "same_children cs cs"
  by (simp add: same_children_def list_all2_refl)

lemma same_children_trans:
  "same_children a b \<Longrightarrow> same_children b c \<Longrightarrow> same_children a c"
  unfolding same_children_def
  by (rule list_all2_trans [of _ _ _ a b c]) auto

lemma same_children_update:
  "map_of cs k = Some c \<Longrightarrow> pristine c' = pristine c \<Longrightarrow>
   same_children cs (AList.update k c' cs)"
  by (induction cs) (auto simp: same_children_def list_all2_refl split: if_splits)

lemma same_children_keys: "same_children cs cs' \<Longrightarrow> map fst cs' = map fst cs"
  unfolding same_children_def
  by (induction cs cs' rule: list_all2_induct) auto

lemma same_children_length: "same_children cs cs' \<Longrightarrow> length cs' = length cs"
  by (auto simp: same_children_def dest: list_all2_lengthD)

lemma same_children_mem:
  "same_children cs cs' \<Longrightarrow> (k, c') \<in> set cs' \<Longrightarrow>
   \<exists>c. (k, c) \<in> set cs \<and> pristine c' = pristine c"
  unfolding same_children_def
  by (induction cs cs' rule: list_all2_induct) auto

lemma CachedDeepEqual_pristine: "pristine (snd (CachedDeepEqual r)) = pristine r"
  by (simp add: pristine_eq_iff CachedDeepEqual_frame)

lemma compare_children_frame: "same_children cs (snd (compare_children ks cs))"
proof (induction ks arbitrary: cs)
  case Nil
  show ?case by simp
next
  case (Cons k ks)
  show ?case
  proof (cases "map_of cs k")
    case None
    then show ?thesis by simp
  next
    case (Some child)
    obtain eq child' where cde: "CachedDeepEqual child = (eq, child')"
      by (cases "CachedDeepEqual child")
    have "pristine child' = pristine child"
      using CachedDeepEqual_pristine [of child] cde by simp
    then have upd: "same_children cs (AList.update k child' cs)"
      by (rule same_children_update [OF Some])
    show ?thesis
    proof (cases eq)
      case True
      have "same_children (AList.update k child' cs)
              (snd (compare_children ks (AList.update k child' cs)))"
        by (rule Cons.IH)
      with upd have "same_children cs (snd (compare_children ks (AList.update k child' cs)))"
        by (rule same_children_trans)
      with Some cde True show ?thesis by simp
    next
      case False
      with Some cde upd show ?thesis by simp
    qed
  qed
qed

lemma compare_values_frame: "same_children (children r) (snd (compare_values r))"
  by (simp add: compare_values_def compare_children_frame split_beta Let_def)

lemma CachedDeepEqual_children: "same_children (children r) (children (snd (CachedDeepEqual r)))"
  by (cases "comparisonResult r")
     (simp_all add: CachedDeepEqual_fresh CachedDeepEqual_cached compare_values_frame)

lemma compare_values_cong:
  "Value r' = Value r \<Longrightarrow> OldValue r' = OldValue r \<Longrightarrow> children r' = children r \<Longrightarrow>
   compare_values r' = compare_values r"
  by (simp add: compare_values_def split_beta Let_def cong: if_cong)

lemma set_update_subset: "set (AList.update k v cs) \<subseteq> insert (k, v) (set cs)"
  by (induction cs) auto

lemma compare_values_wf_children:
  assumes IHa: "\<And>x xa y xb xc ya.
           \<lbrakk>comparisonResult r = None;
            \<not> (Value r = VNull \<and> OldValue r = VNull);
            \<not> (Value r = VNull \<or> OldValue r = VNull);
            x = asList (OldValue r); (xa, y) = x; xb = asList (Value r);
            (xc, ya) = xb; \<not> y \<noteq> ya; y; \<not> length xa \<noteq> length xc;
            \<not> length (children r) \<noteq> length xa\<rbrakk>
           \<Longrightarrow> Q (map (\<lambda>i. KInt (int i)) [0..<length xc]) (children r)"
   and IHm: "\<And>x xa y xb xc ya xd xe yb xf xg yc.
           \<lbrakk>comparisonResult r = None;
            \<not> (Value r = VNull \<and> OldValue r = VNull);
            \<not> (Value r = VNull \<or> OldValue r = VNull);
            x = asList (OldValue r); (xa, y) = x; xb = asList (Value r);
            (xc, ya) = xb; \<not> y \<noteq> ya; \<not> y; xd = asMap (OldValue r);
            (xe, yb) = xd; xf = asMap (Value r); (xg, yc) = xf; \<not> yb \<noteq> yc;
            yb; \<not> length xe \<noteq> length xg; \<not> (length xe = 0 \<and> length xg = 0);
            \<not> length (children r) \<noteq> length xe\<rbrakk>
           \<Longrightarrow> Q (map (\<lambda>p. KStr (fst p)) xe) (children r)"
   and none: "comparisonResult r = None"
  shows "snd (compare_values r) = children r \<or>
         (\<exists>ks. snd (compare_values r) = snd (compare_children ks (children r)) \<and>
               Q ks (children r))"
proof -
  obtain oa oi where ol: "asList (OldValue r) = (oa, oi)" by force
  obtain na ni where nl: "asList (Value r) = (na, ni)" by force
  obtain om omi where oml: "asMap (OldValue r) = (om, omi)" by force
  obtain nm nmi where nml: "asMap (Value r) = (nm, nmi)" by force
  have A: "Q (map (\<lambda>i. KInt (int i)) [0..<length na]) (children r)"
      if "\<not> (Value r = VNull \<and> OldValue r = VNull)" "\<not> (Value r = VNull \<or> OldValue r = VNull)"
         "\<not> oi \<noteq> ni" "oi" "\<not> length oa \<noteq> length na" "\<not> length (children r) \<noteq> length oa"
      by (rule IHa [OF none that(1,2) refl ol [symmetric] refl nl [symmetric] that(3-6)])
  have B: "Q (map (\<lambda>p. KStr (fst p)) om) (children r)"
      if "\<not> (Value r = VNull \<and> OldValue r = VNull)" "\<not> (Value r = VNull \<or> OldValue r = VNull)"
         "\<not> oi \<noteq> ni" "\<not> oi" "\<not> omi \<noteq> nmi" "omi" "\<not> length om \<noteq> length nm"
         "\<not> (length om = 0 \<and> length nm = 0)" "\<not> length (children r) \<noteq> length om"
      by (rule IHm [OF none that(1,2) refl ol [symmetric] refl nl [symmetric] that(3,4)
                 refl oml [symmetric] refl nml [symmetric] that(5-9)])
  show ?thesis
    unfolding compare_values_def ol nl oml nml
    using A B by (auto simp: Let_def)
qed

lemma CachedDeepEqual_wf_aux:
  "wf_node r \<Longrightarrow> wf_node (snd (CachedDeepEqual r))"
  "(\<forall>p\<in>set cs. wf_node (snd p)) \<Longrightarrow>
     (\<forall>p\<in>set (snd (compare_children ks cs)). wf_node (snd p))"
proof (induction r and ks cs rule: CachedDeepEqual_compare_children.induct)
  case (1 r)
  note wf = 1(3) and IHa = 1(1) and IHm = 1(2)
  show ?case
  proof (cases "comparisonResult r")
    case (Some b)
    with wf show ?thesis by (simp add: CachedDeepEqual_cached)
  next
    case None
    let ?Q = "\<lambda>ks cs. (\<forall>p\<in>set cs. wf_node (snd p)) \<longrightarrow>
                (\<forall>p\<in>set (snd (compare_children ks cs)). wf_node (snd p))"
    let ?cs = "snd (compare_values r)"
    let ?res = "fst (compare_values r)"
    let ?r' = "set_comparisonResult (Some ?res) (set_children ?cs r)"
    have kids: "\<forall>p\<in>set (children r). wf_node (snd p)"
      using wf_nodeD(5) [OF wf] wf_nodeD(1) [OF wf] by auto
    have disj: "?cs = children r \<or> (\<exists>ks. ?cs = snd (compare_children ks (children r)) \<and>
               ?Q ks (children r))"
    proof (rule compare_values_wf_children [where Q = ?Q, OF _ _ None], goal_cases)
      case prems: 1
      show ?case by (rule impI, rule IHa [OF prems])
    next
      case prems: 2
      show ?case by (rule impI, rule IHm [OF prems])
    qed
    have kids': "\<forall>p\<in>set ?cs. wf_node (snd p)"
    proof (rule disjE [OF disj])
      assume "?cs = children r"
      with kids show ?thesis by simp
    next
      assume "\<exists>ks. ?cs = snd (compare_children ks (children r)) \<and> ?Q ks (children r)"
      then obtain ks where ks: "?cs = snd (compare_children ks (children r))"
        and q: "?Q ks (children r)" by blast
      from q kids have "\<forall>p\<in>set (snd (compare_children ks (children r))). wf_node (snd p)"
        by (rule mp)
      then show ?thesis unfolding ks .
    qed
    have same: "same_children (children r) ?cs"
      by (rule compare_values_frame)
    have "wf_node ?r'"
    proof (rule wf_nodeI)
      show "distinct (map fst (children ?r'))"
        using wf_nodeD(1) [OF wf] same_children_keys [OF same] by simp
      show "mapList_ok ?r'"
        using wf_nodeD(2) [OF wf] by (simp add: mapList_ok_cong [of ?r' r])
      show "cache_ok ?r'"
      proof (cases "?cs = []")
        case True
        then have "children r = []"
          using same_children_length [OF same] by simp
        then have "compare_values (pristine r) = compare_values r"
          by (intro compare_values_cong) simp_all
        then show ?thesis by (simp add: cache_ok_def)
      next
        case False
        then show ?thesis by (simp add: cache_ok_def)
      qed
    next
      fix k c' assume "(k, c') \<in> set (children ?r')"
      then have mem: "(k, c') \<in> set ?cs" by simp
      then obtain c where c: "(k, c) \<in> set (children r)" "pristine c' = pristine c"
        using same_children_mem [OF same] by blast
      then have "map_of (children r) k = Some c"
        using wf_nodeD(1) [OF wf] by simp
      from wf_nodeD(4) [OF wf this] c(2) show "child_correlated ?r' k c'"
        by (simp add: child_correlated_pristine [of ?r' r c' c])
      from kids' mem show "wf_node c'" by auto
    qed
    then show ?thesis by (simp add: CachedDeepEqual_fresh [OF None])
  qed
next
  case (2 cs)
  then show ?case by simp
next
  case (3 k ks cs)
  note kids = 3(3)
  show ?case
  proof (cases "map_of cs k")
    case None
    with kids show ?thesis by simp
  next
    case (Some child)
    obtain eq child' where cde: "CachedDeepEqual child = (eq, child')"
      by (cases "CachedDeepEqual child")
    have "wf_node child"
      using kids map_of_SomeD [OF Some] by auto
    then have "wf_node child'"
      using 3(1) [OF Some] cde by simp
    with kids have kids': "\<forall>p\<in>set (AList.update k child' cs). wf_node (snd p)"
      using set_update_subset [of k child' cs] by auto
    show ?thesis
    proof (cases eq)
      case True
      have "\<forall>p\<in>set (snd (compare_children ks (AList.update k child' cs))). wf_node (snd p)"
        by (rule 3(2) [OF Some refl cde [symmetric] refl _ kids']) (simp add: True)
      with Some cde True show ?thesis by simp
    next
      case False
      with Some cde kids' show ?thesis by simp
    qed
  qed
qed

theorem CachedDeepEqual_preserves_wf: "wf_node r \<Longrightarrow> wf_node (snd (CachedDeepEqual r))"
  by (rule CachedDeepEqual_wf_aux(1))

lemma wf_node_replace_child:
  assumes wf: "wf_node n" and old: "map_of (children n) k = Some c"
    and p: "pristine c' = pristine c" and wfc: "wf_node c'"
  shows "wf_node (set_children (AList.update k c' (children n)) n)"
proof -
  let ?n' = "set_children (AList.update k c' (children n)) n"
  have same: "same_children (children n) (children ?n')"
    using same_children_update [OF old p] by simp
  have ne: "children n \<noteq> []" using old by auto
  then have ne': "children ?n' \<noteq> []"
    using same_children_length [OF same] by auto
  show ?thesis
  proof (rule wf_nodeI)
    show "distinct (map fst (children ?n'))"
      using wf_nodeD(1) [OF wf] same_children_keys [OF same] by simp
    show "mapList_ok ?n'"
      using wf_nodeD(2) [OF wf] by (simp add: mapList_ok_cong [of ?n' n])
    show "cache_ok ?n'"
      using ne' by (simp add: cache_ok_def split: option.splits)
  next
    fix k' d' assume mem: "(k', d') \<in> set (children ?n')"
    then obtain d where d: "(k', d) \<in> set (children n)" "pristine d' = pristine d"
      using same_children_mem [OF same] by blast
    then have m: "map_of (children n) k' = Some d"
      using wf_nodeD(1) [OF wf] by simp
    from wf_nodeD(4) [OF wf m] d(2) show "child_correlated ?n' k' d'"
      by (simp add: child_correlated_pristine [of ?n' n d' d])
    from mem have "(k', d') \<in> insert (k, c') (set (children n))"
      using set_update_subset [of k c' "children n"] by auto
    then show "wf_node d'"
    proof
      assume "(k', d') = (k, c')" with wfc show ?thesis by simp
    next
      assume "(k', d') \<in> set (children n)"
      then have "map_of (children n) k' = Some d'"
        using wf_nodeD(1) [OF wf] by simp
      from wf_nodeD(5) [OF wf this] show ?thesis .
    qed
  qed
qed

section \<open>Lookups on well-formed nodes\<close>

lemma Key_pristine_SomeD:
  assumes "fst (Key (Some (pristine n)) field) = Some c0"
  shows "\<exists>s om nm ov nv ps. Schema n = Some s \<and> entries (OldValue n) = Some om \<and>
           entries (Value n) = Some nm \<and> map_of om field = Some ov \<and>
           map_of nm field = Some nv \<and> property_schema s field = Some ps \<and>
           c0 = NewCorrelatedObject nv ov (Some ps)"
proof (cases "Schema n")
  case None
  with assms show ?thesis by (simp add: Key_no_schema)
next
  case (Some s)
  then have "Schema (pristine n) = Some s" by simp
  from Key_fresh [OF this, of field] assms Some show ?thesis
    by (auto split: option.splits)
qed

lemma wf_memo_KeyD:
  assumes "wf_node n" "map_of (children n) (KStr field) = Some c"
  shows "\<exists>s om nm ov nv ps. Schema n = Some s \<and> entries (OldValue n) = Some om \<and>
           entries (Value n) = Some nm \<and> map_of om field = Some ov \<and>
           map_of nm field = Some nv \<and> property_schema s field = Some ps \<and>
           OldValue c = ov \<and> Value c = nv \<and> Schema c = Some ps"
proof -
  from wf_nodeD(4) [OF assms] have "fst (Key (Some (pristine n)) field) = Some (pristine c)"
    by (simp add: child_correlated_def)
  from Key_pristine_SomeD [OF this] show ?thesis
    by (auto simp: pristine_def NewCorrelatedObject_def)
qed

lemma Index_pristine_SomeD:
  assumes "Index (Some (pristine n)) i = Inr (Some c0, l)"
  shows "\<exists>s nl ov m isch v. Schema n = Some s \<and> elements (Value n) = Some nl \<and>
           i < int (length nl) \<and>
           correlateOldValueForChildAtNewIndex (pristine n) i = Inr (ov, m) \<and>
           ov \<noteq> VNull \<and> item_schema s = Some isch \<and> index_slice nl i = Inr v \<and>
           c0 = NewCorrelatedObject v ov (Some isch)"
proof (cases "Schema n")
  case None
  with assms show ?thesis by (simp add: Index_no_schema)
next
  case (Some s)
  then have "Schema (pristine n) = Some s" by simp
  from Index_fresh [OF this, of i] assms Some show ?thesis
    by (auto split: option.splits sum.splits if_splits)
qed

lemma wf_memo_IndexD:
  assumes "wf_node n" "map_of (children n) (KInt i) = Some c"
  shows "\<exists>s nl ov m isch v. Schema n = Some s \<and> elements (Value n) = Some nl \<and>
           i < int (length nl) \<and>
           correlateOldValueForChildAtNewIndex (pristine n) i = Inr (ov, m) \<and>
           ov \<noteq> VNull \<and> item_schema s = Some isch \<and> index_slice nl i = Inr v \<and>
           OldValue c = ov \<and> Value c = v \<and> Schema c = Some isch"
proof -
  from wf_nodeD(4) [OF assms] obtain l where
    "Index (Some (pristine n)) i = Inr (Some (pristine c), l)"
    by (auto simp: child_correlated_def split: sum.splits)
  from Index_pristine_SomeD [OF this] show ?thesis
    by (auto simp: pristine_def NewCorrelatedObject_def)
qed

lemma index_slice_in_range: "0 \<le> i \<Longrightarrow> i < int (length xs) \<Longrightarrow> index_slice xs i = Inr (xs ! nat i)"
  by (simp add: index_slice_def)

lemma correlate_positional:
  assumes "Schema n = Some s" "listType s \<noteq> ''map''" "listType s \<noteq> ''set''"
    "listType s \<noteq> ''atomic''" "elements (OldValue n) = Some old"
    "elements (Value n) = Some new" "0 \<le> i" "i < int (length new)"
  shows "correlateOldValueForChildAtNewIndex n i =
           Inr (if i < int (length old) then old ! nat i else VNull, n)"
  using assms by (simp add: correlate_unfold [where s = s] index_slice_in_range)

lemma Index_positional_aux:
  assumes wf: "wf_node n" and s: "Schema n = Some s"
    and lt: "listType s \<noteq> ''map''" "listType s \<noteq> ''set''" "listType s \<noteq> ''atomic''"
    and old: "OldValue n = VList old" and new: "Value n = VList new"
    and isch: "item_schema s = Some isch"
    and i: "0 \<le> i" "i < int (length new)"
  shows "if i < int (length old) \<and> old ! nat i \<noteq> VNull
         then \<exists>c n'. Index (Some n) i = Inr (Some c, Some n') \<and>
                OldValue c = old ! nat i \<and> Value c = new ! nat i \<and> Schema c = Some isch
         else Index (Some n) i = Inr (None, Some n)"
proof -
  have eo: "elements (OldValue n) = Some old" and en: "elements (Value n) = Some new"
    using old new by simp_all
  have cor: "correlateOldValueForChildAtNewIndex n i =
           Inr (if i < int (length old) then old ! nat i else VNull, n)"
    by (rule correlate_positional [OF s lt eo en i])
  have corp: "correlateOldValueForChildAtNewIndex (pristine n) i =
           Inr (if i < int (length old) then old ! nat i else VNull, pristine n)"
    by (rule correlate_positional [where s = s and old = old and new = new])
       (simp_all add: s lt eo en i)
  show ?thesis
  proof (cases "map_of (children n) (KInt i)")
    case memo: (Some c)
    from wf_memo_IndexD [OF wf memo] corp en i
    have "i < int (length old) \<and> old ! nat i \<noteq> VNull \<and> OldValue c = old ! nat i \<and>
          Value c = new ! nat i \<and> Schema c = Some isch"
      using isch s by (auto simp: index_slice_in_range split: if_splits)
    with memo s show ?thesis by (simp add: Index_memo)
  next
    case fresh: None
    show ?thesis
      using en i cor isch
      by (simp add: Index_fresh [OF s fresh] index_slice_in_range)
  qed
qed

lemma correlate_old_not_list:
  "elements (OldValue n) = None \<Longrightarrow> correlateOldValueForChildAtNewIndex n i = Inr (VNull, n)"
  by (simp add: correlateOldValueForChildAtNewIndex_def asList_elements)

lemma Index_uncorrelatable_shape:
  assumes wf: "wf_node n"
    and shape: "elements (OldValue n) = None \<or> elements (Value n) = None \<or>
                (\<exists>new. elements (Value n) = Some new \<and> int (length new) \<le> i)"
  shows "Index (Some n) i = Inr (None, Some n)"
proof (cases "Schema n")
  case None
  then show ?thesis by (simp add: Index_no_schema)
next
  case (Some s)
  show ?thesis
  proof (cases "map_of (children n) (KInt i)")
    case memo: (Some c)
    from wf_memo_IndexD [OF wf memo] shape have False
      by (auto simp: correlate_old_not_list [of "pristine n", simplified])
    then show ?thesis ..
  next
    case fresh: None
    from shape show ?thesis
      by (auto simp: Index_fresh [OF Some fresh] correlate_old_not_list split: option.splits)
  qed
qed

lemma Key_lookup_aux:
  assumes wf: "wf_node n"
  shows
  "Key None field = (None, None) \<and>
   (case Schema n of
      None \<Rightarrow> Key (Some n) field = (None, Some n)
    | Some s \<Rightarrow>
       (case (entries (OldValue n), entries (Value n)) of
          (Some om, Some nm) \<Rightarrow>
            (case (map_of om field, map_of nm field, property_schema s field) of
               (Some ov, Some nv, Some ps) \<Rightarrow>
                 (\<exists>c n'. Key (Some n) field = (Some c, Some n') \<and>
                    OldValue c = ov \<and> Value c = nv \<and> Schema c = Some ps \<and>
                    map_of (children n') (KStr field) = Some c \<and>
                    Key (Some n') field = (Some c, Some n'))
             | _ \<Rightarrow> Key (Some n) field = (None, Some n))
        | _ \<Rightarrow> Key (Some n) field = (None, Some n)))"
proof (cases "Schema n")
  case None
  then show ?thesis by (simp add: Key_nil Key_no_schema)
next
  case (Some s)
  show ?thesis
  proof (cases "map_of (children n) (KStr field)")
    case memo: (Some c)
    from wf_memo_KeyD [OF wf memo] Some memo show ?thesis
      by (auto simp: Key_nil Key_memo)
  next
    case fresh: None
    have again: "Key (Some (set_children (AList.update (KStr field) c (children n)) n)) field
            = (Some c, Some (set_children (AList.update (KStr field) c (children n)) n))" for c
      by (rule Key_memo [where s = s]) (simp_all add: Some map_of_update_eq)
    show ?thesis
      using Some
      by (auto simp: Key_nil Key_fresh [OF Some fresh] again map_of_update_eq
               split: option.splits)
  qed
qed

lemma correlate_mapList:
  assumes "correlateOldValueForChildAtNewIndex n i = Inr (ov, n')"
  shows "mapList n' = mapList n \<or>
         (mapList n = None \<and>
          (\<exists>s old. Schema n = Some s \<and> listType s = ''map'' \<and>
                   elements (OldValue n) = Some old \<and>
                   mapList n' = Some (MakeMapList s old)))"
  using assms
  by (auto simp: correlateOldValueForChildAtNewIndex_def Let_def split_beta listType_def
           asList_elements
           split: if_splits option.splits sum.splits)

lemma Key_step:
  assumes "Key (Some n) field = (res, l)"
  shows "\<exists>n'. l = Some n' \<and> comparisonResult n' = comparisonResult n \<and>
           mapList n' = mapList n \<and>
           (case res of
              None \<Rightarrow> n' = n
            | Some c \<Rightarrow>
                map_of (children n') (KStr field) = Some c \<and>
                Key (Some n') field = (Some c, Some n') \<and>
                (if map_of (children n) (KStr field) = None
                 then children n' = children n @ [(KStr field, c)]
                 else n' = n))"
proof (cases "Schema n")
  case None
  with assms show ?thesis by (auto simp: Key_no_schema)
next
  case (Some s)
  show ?thesis
  proof (cases "map_of (children n) (KStr field)")
    case memo: (Some c)
    have k: "Key (Some n) field = (Some c, Some n)" by (rule Key_memo [OF Some memo])
    with assms have "res = Some c" "l = Some n" by simp_all
    with memo k show ?thesis by simp
  next
    case fresh: None
    have again: "Key (Some (set_children (AList.update (KStr field) c (children n)) n)) field
            = (Some c, Some (set_children (AList.update (KStr field) c (children n)) n))" for c
      by (rule Key_memo [where s = s]) (simp_all add: Some map_of_update_eq)
    show ?thesis
    proof (cases res)
      case None
      with assms have "l = Some n"
        by (auto simp: Key_fresh [OF Some fresh] split: option.splits)
      with None show ?thesis by simp
    next
      case res: (Some c)
      let ?n' = "set_children (AList.update (KStr field) c (children n)) n"
      from assms res have l: "l = Some ?n'"
        by (auto simp: Key_fresh [OF Some fresh] split: option.splits)
      have 1: "map_of (children ?n') (KStr field) = Some c"
        by (simp add: map_of_update_eq)
      have 2: "children ?n' = children n @ [(KStr field, c)]"
        by (simp add: update_fresh [OF fresh])
      have 3: "comparisonResult ?n' = comparisonResult n" "mapList ?n' = mapList n"
        by simp_all
      from l res fresh 1 2 3 again [of c] show ?thesis
        by (simp del: sel_set_children)
    qed
  qed
qed

lemma Index_step:
  assumes "Index (Some n) i = Inr (res, l)"
  shows "\<exists>n'. l = Some n' \<and> comparisonResult n' = comparisonResult n \<and>
           (mapList n' = mapList n \<or>
            (mapList n = None \<and>
             (\<exists>s old. Schema n = Some s \<and> listType s = ''map'' \<and>
                      elements (OldValue n) = Some old \<and>
                      mapList n' = Some (MakeMapList s old)))) \<and>
           (case res of
              None \<Rightarrow> children n' = children n
            | Some c \<Rightarrow>
                map_of (children n') (KInt i) = Some c \<and>
                Index (Some n') i = Inr (Some c, Some n') \<and>
                (if map_of (children n) (KInt i) = None
                 then children n' = children n @ [(KInt i, c)]
                 else n' = n))"
proof (cases "Schema n")
  case None
  with assms show ?thesis by (auto simp: Index_no_schema)
next
  case (Some s)
  show ?thesis
  proof (cases "map_of (children n) (KInt i)")
    case memo: (Some c)
    have k: "Index (Some n) i = Inr (Some c, Some n)" by (rule Index_memo [OF Some memo])
    with assms have "res = Some c" "l = Some n" by simp_all
    with memo k show ?thesis by simp
  next
    case fresh: None
    note xf = Index_fresh [OF Some fresh]
    show ?thesis
    proof (cases "elements (Value n)")
      case None
      with assms xf show ?thesis by auto
    next
      case nl: (Some nl)
      show ?thesis
      proof (cases "int (length nl) \<le> i")
        case True
        with assms xf nl show ?thesis by auto
      next
        case False
        with assms xf nl obtain ov n1 where
          cor: "correlateOldValueForChildAtNewIndex n i = Inr (ov, n1)"
          by (auto split: sum.splits)
        note fr = correlate_frame(1-3) [OF cor] and ml = correlate_mapList [OF cor]
        have s1: "Schema n1 = Some s" using fr(1) Some by (simp add: pristine_eq_iff)
        have fresh1: "map_of (children n1) (KInt i) = None" using fresh fr(2) by simp
        have again: "Index (Some (set_children (AList.update (KInt i) c (children n1)) n1)) i
            = Inr (Some c, Some (set_children (AList.update (KInt i) c (children n1)) n1))" for c
          by (rule Index_memo [where s = s]) (simp_all add: s1 map_of_update_eq)
        show ?thesis
        proof (cases res)
          case None
          with assms xf nl False cor have "l = Some n1"
            by (auto split: option.splits sum.splits if_splits)
          with None fr ml show ?thesis by simp
        next
          case (Some c)
          with assms xf nl False cor
          have l: "l = Some (set_children (AList.update (KInt i) c (children n1)) n1)"
            by (auto split: option.splits sum.splits if_splits)
          let ?n' = "set_children (AList.update (KInt i) c (children n1)) n1"
          have 1: "map_of (children ?n') (KInt i) = Some c"
            by (simp add: map_of_update_eq)
          have 2: "children ?n' = children n @ [(KInt i, c)]"
            using fr(2) update_fresh [OF fresh1, of c] by simp
          have 3: "comparisonResult ?n' = comparisonResult n" "mapList ?n' = mapList n1"
            using fr(3) by simp_all
          from Some l fresh ml 1 2 3 again [of c] show ?thesis
            by (simp del: sel_set_children sel_set_mapList)
        qed
      qed
    qed
  qed
qed

lemma correlate_mapList_exact:
  assumes "correlateOldValueForChildAtNewIndex n i = Inr (ov, n')"
    and "Schema n = Some s" "elements (Value n) = Some nl" "i < int (length nl)"
  shows "mapList n' =
     (case elements (OldValue n) of
        Some old \<Rightarrow>
          if listType s = ''map'' \<and> mapList n = None then Some (MakeMapList s old)
          else mapList n
      | None \<Rightarrow> mapList n)"
  using assms(1)
  by (auto simp: correlate_unfold [OF assms(2-4)] split: option.splits sum.splits if_splits)

lemma Index_mapList:
  assumes "Index (Some n) i = Inr (res, Some n')"
  shows "mapList n' =
     (case (Schema n, elements (OldValue n), elements (Value n)) of
        (Some s, Some old, Some new) \<Rightarrow>
          if listType s = ''map'' \<and> i < int (length new) \<and> mapList n = None \<and>
             map_of (children n) (KInt i) = None
          then Some (MakeMapList s old) else mapList n
      | _ \<Rightarrow> mapList n)"
proof (cases "Schema n")
  case None
  with assms show ?thesis by (auto simp: Index_no_schema)
next
  case (Some s)
  show ?thesis
  proof (cases "map_of (children n) (KInt i)")
    case memo: (Some c)
    have "Index (Some n) i = Inr (Some c, Some n)" by (rule Index_memo [OF Some memo])
    with assms have "n' = n" by simp
    with Some memo show ?thesis by (simp split: option.splits)
  next
    case fresh: None
    note xf = Index_fresh [OF Some fresh]
    show ?thesis
    proof (cases "elements (Value n)")
      case None
      with assms xf have "n' = n" by auto
      with Some None show ?thesis by (simp split: option.splits)
    next
      case nl: (Some nl)
      show ?thesis
      proof (cases "int (length nl) \<le> i")
        case True
        with assms xf nl have "n' = n" by auto
        with Some nl True show ?thesis by (simp split: option.splits)
      next
        case False
        with assms xf nl obtain ov n1 where
          cor: "correlateOldValueForChildAtNewIndex n i = Inr (ov, n1)"
          by (auto split: sum.splits)
        from False have lt: "i < int (length nl)" by simp
        note ex = correlate_mapList_exact [OF cor Some nl lt]
        from assms xf nl False cor have "mapList n' = mapList n1"
          by (auto split: option.splits sum.splits if_splits)
        with ex Some nl lt fresh show ?thesis by (simp split: option.splits)
      qed
    qed
  qed
qed

lemma null_node_no_children:
  assumes wf: "wf_node c" and nul: "OldValue c = VNull" "Value c = VNull"
  shows "children c = []"
proof (rule ccontr)
  assume "children c \<noteq> []"
  then obtain k d where mem: "(k, d) \<in> set (children c)"
    by (cases "children c") auto
  then have m: "map_of (children c) k = Some d"
    using wf_nodeD(1) [OF wf] by simp
  show False
  proof (cases k)
    case (KStr f)
    from wf_memo_KeyD [OF wf m [unfolded KStr]] nul show False by auto
  next
    case (KInt i)
    from wf_memo_IndexD [OF wf m [unfolded KInt]] nul show False by auto
  qed
qed

lemma null_node_equal:
  assumes wf: "wf_node c" and nul: "OldValue c = VNull" "Value c = VNull"
  shows "fst (CachedDeepEqual c)"
proof (cases "comparisonResult c")
  case None
  with nul show ?thesis by (simp add: CachedDeepEqual_fresh compare_values_def)
next
  case (Some b)
  have "children c = []" by (rule null_node_no_children [OF wf nul])
  with wf_nodeD(3) [OF wf] Some nul have "b"
    by (simp add: cache_ok_def compare_values_def)
  with Some show ?thesis by (simp add: CachedDeepEqual_cached)
qed

lemma Index_null_correlate:
  assumes wf: "wf_node n"
    and cor: "correlateOldValueForChildAtNewIndex n i = Inr (VNull, n1)"
  shows "Index (Some n) i = Inr (None, Some n) \<or> Index (Some n) i = Inr (None, Some n1)"
proof (cases "Schema n")
  case None
  then show ?thesis by (simp add: Index_no_schema)
next
  case (Some s)
  show ?thesis
  proof (cases "map_of (children n) (KInt i)")
    case memo: (Some c)
    from correlate_pristine [OF wf_nodeD(2) [OF wf] cor] wf_memo_IndexD [OF wf memo]
    have False by auto
    then show ?thesis ..
  next
    case fresh: None
    from cor show ?thesis
      by (auto simp: Index_fresh [OF Some fresh] split: option.splits)
  qed
qed

lemma correlate_set_atomic:
  assumes "Schema n = Some s" "listType s = ''set'' \<or> listType s = ''atomic''"
  shows "correlateOldValueForChildAtNewIndex n i = Inr (VNull, n)"
  using assms
  by (auto simp: correlateOldValueForChildAtNewIndex_def listType_def Let_def split_beta)

lemma Index_set_atomic:
  assumes wf: "wf_node n" and s: "Schema n = Some s"
    and lt: "listType s = ''set'' \<or> listType s = ''atomic''"
  shows "Index (Some n) i = Inr (None, Some n)"
proof -
  have "correlateOldValueForChildAtNewIndex n i = Inr (VNull, n)"
    by (rule correlate_set_atomic [OF s lt])
  from Index_null_correlate [OF wf this] show ?thesis by auto
qed

lemma list_node_children_int:
  assumes wf: "wf_node n" and v: "elements (Value n) = Some new"
    and m: "map_of (children n) k = Some c"
  shows "\<exists>i. k = KInt i"
proof (cases k)
  case (KStr f)
  from wf_memo_KeyD [OF wf m [unfolded KStr]] v show ?thesis
    by (cases "Value n") auto
next
  case (KInt i)
  then show ?thesis by simp
qed

lemma set_atomic_no_children:
  assumes wf: "wf_node n" and s: "Schema n = Some s"
    and lt: "listType s = ''set'' \<or> listType s = ''atomic''"
    and v: "elements (Value n) = Some new"
  shows "children n = []"
proof (rule ccontr)
  assume "children n \<noteq> []"
  then obtain k c where "(k, c) \<in> set (children n)"
    by (cases "children n") auto
  then have m: "map_of (children n) k = Some c"
    using wf_nodeD(1) [OF wf] by simp
  from list_node_children_int [OF wf v m] obtain i where k: "k = KInt i" ..
  have "Index (Some n) i = Inr (Some c, Some n)"
    by (rule Index_memo [OF s m [unfolded k]])
  with Index_set_atomic [OF wf s lt, of i] show False by simp
qed

lemma childless_list_not_equal:
  assumes "OldValue n = VList old" "Value n = VList new" "children n = []"
    "old \<noteq> [] \<or> new \<noteq> []"
  shows "\<not> fst (compare_values n)"
  using assms by (auto simp: compare_values_def)

lemma set_atomic_list_never_equal:
  assumes wf: "wf_node n" and s: "Schema n = Some s"
    and lt: "listType s = ''set'' \<or> listType s = ''atomic''"
    and o: "OldValue n = VList old" and v: "Value n = VList new"
    and ne: "old \<noteq> [] \<or> new \<noteq> []"
  shows "\<not> fst (CachedDeepEqual n)"
proof -
  have ch: "children n = []"
    by (rule set_atomic_no_children [OF wf s lt]) (simp add: v)
  have cv: "\<not> fst (compare_values n)"
    by (rule childless_list_not_equal [OF o v ch ne])
  have "compare_values (pristine n) = compare_values n"
    by (intro compare_values_cong) (simp_all add: ch)
  with cv have cvp: "\<not> fst (compare_values (pristine n))" by simp
  show ?thesis
  proof (cases "comparisonResult n")
    case None
    with cv show ?thesis by (simp add: CachedDeepEqual_fresh)
  next
    case (Some b)
    with wf_nodeD(3) [OF wf] ch cvp have "\<not> b" by (simp add: cache_ok_def)
    with Some show ?thesis by (simp add: CachedDeepEqual_cached)
  qed
qed

lemma correlate_total_nonneg:
  assumes "0 \<le> i" "Schema n \<noteq> None"
  shows "\<exists>ov n'. correlateOldValueForChildAtNewIndex n i = Inr (ov, n')"
  using assms
  by (auto simp: correlateOldValueForChildAtNewIndex_def Let_def split_beta index_slice_def
           split: option.splits)

lemma Index_total_nonneg:
  assumes "0 \<le> i"
  shows "\<exists>res l'. Index l i = Inr (res, l')"
proof (cases l)
  case None
  then show ?thesis by (simp add: Index_nil)
next
  case l: (Some n)
  show ?thesis
  proof (cases "Schema n")
    case None
    with l show ?thesis by (simp add: Index_no_schema)
  next
    case (Some s)
    show ?thesis
    proof (cases "map_of (children n) (KInt i)")
      case memo: (Some c)
      with l Some show ?thesis by (simp add: Index_memo)
    next
      case fresh: None
      from correlate_total_nonneg [OF assms, of n] Some obtain ov n' where
        "correlateOldValueForChildAtNewIndex n i = Inr (ov, n')" by auto
      with assms l show ?thesis
        by (auto simp: Index_fresh [OF Some fresh] index_slice_def split: option.splits)
    qed
  qed
qed

section \<open>Example inputs\<close>

text \<open>An engine run that reports one failure at the node it is given and asks for no child
  validator, a validator for an object whose field \<^verbatim>\<open>foo\<close> is unchanged and a validator
  for that field alone; a validator for an unchanged object whose only field \<^verbatim>\<open>bar\<close> the
  schema does not declare, and an engine run that asks the field hook for \<^verbatim>\<open>bar\<close> (the
  lookup \<^verbatim>\<open>Key\<close> that \<^verbatim>\<open>SubPropertyValidator\<close> makes) and then reports that the required
  field \<^verbatim>\<open>foo\<close> is missing; a list node both of whose elements have been visited, and a
  list schema that declares no list type.\<close>

definition failing_engine :: engine where
  "failing_engine s c = (\<lparr>Errors = [''must be one of A, B''], Warnings = []\<rparr>, c)"

definition undeclared_field_object :: ratchetingValueValidator where
  "undeclared_field_object =
     newRatchetingValueValidator
       (NewCorrelatedObject (VMap [(''bar'', VString ''x'')]) (VMap [(''bar'', VString ''x'')])
          (Some (MkSchema [(''foo'', MkSchema [] None None [])] None None [])))
       \<lparr>schema = Some (MkSchema [(''foo'', MkSchema [] None None [])] None None []),
        root = None, path = '''', knownFormats = MkRegistry [], options = []\<rparr>"

definition field_visiting_engine :: engine where
  "field_visiting_engine s c =
     (case Key (Some c) ''bar'' of
        (child, Some c') \<Rightarrow> (\<lparr>Errors = [''foo in body is required''], Warnings = []\<rparr>, c')
      | (child, None) \<Rightarrow> (\<lparr>Errors = [''foo in body is required''], Warnings = []\<rparr>, c))"

definition unchanged_object :: ratchetingValueValidator where
  "unchanged_object =
     newRatchetingValueValidator
       (NewCorrelatedObject (VMap [(''foo'', VString ''legacy'')])
          (VMap [(''foo'', VString ''legacy'')])
          (Some (MkSchema [(''foo'', MkSchema [] None None [])] None None [])))
       \<lparr>schema = Some (MkSchema [(''foo'', MkSchema [] None None [])] None None []),
        root = None, path = '''', knownFormats = MkRegistry [], options = []\<rparr>"

definition legacy_field :: ratchetingValueValidator where
  "legacy_field =
     newRatchetingValueValidator
       (NewCorrelatedObject (VString ''legacy'') (VString ''legacy'') (Some (MkSchema [] None None [])))
       \<lparr>schema = Some (MkSchema [] None None []),
        root = None, path = ''foo'', knownFormats = MkRegistry [], options = []\<rparr>"

text \<open>An object node whose field \<^verbatim>\<open>foo\<close> has been visited and compared: the child
  stored under the field name carries the result of its comparison.\<close>

definition visited_object :: CorrelatedObject where
  "visited_object =
     MkCorrelatedObject (VMap [(''foo'', VString ''legacy'')]) (VMap [(''foo'', VString ''legacy'')])
       (Some (MkSchema [(''foo'', MkSchema [] None None [])] None None []))
       None None
       [(KStr ''foo'',
         MkCorrelatedObject (VString ''legacy'') (VString ''legacy'')
           (Some (MkSchema [] None None [])) (Some True) None [])]"

definition visited_list :: CorrelatedObject where
  "visited_list =
     MkCorrelatedObject (VList [VInt 1, VInt 2]) (VList [VInt 1, VInt 2])
       (Some (MkSchema [] None (Some (MkSchemaOrArray (Some (MkSchema [] None None [])) [])) []))
       None None
       [(KInt 0, NewCorrelatedObject (VInt 1) (VInt 1) (Some (MkSchema [] None None []))),
        (KInt 1, NewCorrelatedObject (VInt 2) (VInt 2) (Some (MkSchema [] None None [])))]"

definition positional_schema :: Schema where
  "positional_schema = MkSchema [] None (Some (MkSchemaOrArray (Some (MkSchema [] None None [])) [])) []"

text \<open>A list schema of type \<^verbatim>\<open>map\<close> keyed by \<^verbatim>\<open>name\<close> and a one-element list whose
  element was renamed; an object with a field that is null on both sides and a list with
  an element that is null on both sides; a list schema of type \<^verbatim>\<open>set\<close>, a validator for
  an unchanged list under it, and an engine run that asks the index hook for a validator
  for the first two elements and then reports a failure; and a two-element list under the
  schema that declares no list type.\<close>

definition keyed_schema :: Schema where
  "keyed_schema =
     MkSchema [] None
       (Some (MkSchemaOrArray (Some (MkSchema [(''name'', MkSchema [] None None [])] None None []))
                []))
       [(''x-kubernetes-list-type'', VString ''map''),
        (''x-kubernetes-list-map-keys'', VList [VString ''name''])]"

definition renamed_element :: CorrelatedObject where
  "renamed_element =
     NewCorrelatedObject (VList [VMap [(''name'', VString ''b'')]])
       (VList [VMap [(''name'', VString ''a'')]]) (Some keyed_schema)"

definition null_field_object :: CorrelatedObject where
  "null_field_object =
     NewCorrelatedObject (VMap [(''foo'', VNull)]) (VMap [(''foo'', VNull)])
       (Some (MkSchema [(''foo'', MkSchema [] None None [])] None None []))"

definition null_element_list :: CorrelatedObject where
  "null_element_list =
     NewCorrelatedObject (VList [VNull]) (VList [VNull]) (Some positional_schema)"

definition set_schema :: Schema where
  "set_schema =
     MkSchema [] None (Some (MkSchemaOrArray (Some (MkSchema [] None None [])) []))
       [(''x-kubernetes-list-type'', VString ''set'')]"

definition unchanged_set :: ratchetingValueValidator where
  "unchanged_set =
     newRatchetingValueValidator
       (NewCorrelatedObject (VList [VString ''a'', VString ''b''])
          (VList [VString ''a'', VString ''b'']) (Some set_schema))
       \<lparr>schema = Some set_schema, root = None, path = ''tags'',
        knownFormats = MkRegistry [], options = []\<rparr>"

definition element_visiting_engine :: engine where
  "element_visiting_engine s c =
     (case Index (Some c) 0 of
        Inr (child0, Some c0) \<Rightarrow>
          (case Index (Some c0) 1 of
             Inr (child1, Some c1) \<Rightarrow> (\<lparr>Errors = [''too many items''], Warnings = []\<rparr>, c1)
           | _ \<Rightarrow> (\<lparr>Errors = [''too many items''], Warnings = []\<rparr>, c0))
      | _ \<Rightarrow> (\<lparr>Errors = [''too many items''], Warnings = []\<rparr>, c))"

definition two_element_list :: CorrelatedObject where
  "two_element_list =
     NewCorrelatedObject (VList [VInt 1, VInt 2]) (VList [VInt 1, VInt 2]) (Some positional_schema)"

lemma unchanged_set_Index:
  "Index (Some (correlation unchanged_set)) 0 = Inr (None, Some (correlation unchanged_set))"
  "Index (Some (correlation unchanged_set)) 1 = Inr (None, Some (correlation unchanged_set))"
  by (simp_all add: unchanged_set_def newRatchetingValueValidator_def set_schema_def Index_def
        correlateOldValueForChildAtNewIndex_def GetString_def)

text \<open>\<^verbatim>\<open>Validate\<close> follows \<^verbatim>\<open>CachedDeepEqual\<close>, for every validator and every behaviour of
  the engine: it returns the engine's result unchanged when that result reports no
  failure; when it reports failures, it returns a result with no errors whose warnings are
  the engine's errors followed by its warnings if \<^verbatim>\<open>CachedDeepEqual\<close> of the node (as the
  traversal left it) is true, and the engine's result unchanged if it is false.  A failure
  against an unchanged scalar is forgiven.\<close>

lemma Validate_follows_CachedDeepEqual:
  "(case sv_Validate
           (NewSchemaValidator (schema r) (root r) (path r) (knownFormats r)
              (RatchetingHooks # options r))
           (correlation r) of
      (res, c) \<Rightarrow>
        (if IsValid res then fst (Validate sv_Validate r) = res
         else if fst (CachedDeepEqual c)
           then fst (Validate sv_Validate r)
                  = \<lparr>Errors = [], Warnings = Errors res @ Warnings res\<rparr>
           else fst (Validate sv_Validate r) = res) \<and>
        (\<not> IsValid res \<longrightarrow>
           (IsValid (fst (Validate sv_Validate r)) \<longleftrightarrow> fst (CachedDeepEqual c))))"
  by (simp add: Validate_def getValidateOption_def MergeAsWarnings_def IsValid_def Let_def
           split: prod.splits)

lemma Validate_forgives_unchanged_scalar:
  "fst (Validate failing_engine legacy_field)
     = \<lparr>Errors = [], Warnings = [''must be one of A, B'']\<rparr>"
proof -
  have eq: "fst (CachedDeepEqual (correlation legacy_field))"
    by (simp add: legacy_field_def newRatchetingValueValidator_def CachedDeepEqual_fresh
          compare_values_def)
  have inv: "\<not> IsValid (fst (failing_engine s c))" for s c
    by (simp add: failing_engine_def IsValid_def)
  show ?thesis
    using Validate_follows_CachedDeepEqual [of failing_engine legacy_field] eq inv
    by (simp add: failing_engine_def split: prod.splits)
qed

section \<open>The claims\<close>

subsection \<open>C1: the ratcheting rule\<close>

text \<open>
  C1 at a concrete input.  Old and new value are the same object with the one field
  \<^verbatim>\<open>bar\<close>, under a schema that declares the property \<^verbatim>\<open>foo\<close> only and no additional
  properties.  The lookup \<^verbatim>\<open>Key\<close> made for the field finds no schema for it, returns nil
  and stores no child; the engine reports a failure against the object;
  \<^verbatim>\<open>CachedDeepEqual\<close> answers false, not through a structural comparison of the two maps
  but because the number of children differs from the number of keys; and \<^verbatim>\<open>Validate\<close>
  returns the errors unchanged, although the old and the new value are structurally
  identical.  (\<open>Validate_follows_CachedDeepEqual\<close> above shows that \<^verbatim>\<open>Validate\<close> forgives
  exactly when \<^verbatim>\<open>CachedDeepEqual\<close> answers true.)
\<close>

theorem undeclared_field_not_forgiven:
  "OldValue (correlation undeclared_field_object) = Value (correlation undeclared_field_object) \<and>
   DeepEqual (OldValue (correlation undeclared_field_object))
     (Value (correlation undeclared_field_object)) \<and>
   Key (Some (correlation undeclared_field_object)) ''bar''
     = (None, Some (correlation undeclared_field_object)) \<and>
   \<not> IsValid (fst (field_visiting_engine
                     (NewSchemaValidator (schema undeclared_field_object)
                        (root undeclared_field_object) (path undeclared_field_object)
                        (knownFormats undeclared_field_object)
                        (RatchetingHooks # options undeclared_field_object))
                     (correlation undeclared_field_object))) \<and>
   fst (CachedDeepEqual (correlation undeclared_field_object)) = False \<and>
   fst (Validate field_visiting_engine undeclared_field_object)
     = \<lparr>Errors = [''foo in body is required''], Warnings = []\<rparr>"
proof -
  have key: "Key (Some (correlation undeclared_field_object)) ''bar''
               = (None, Some (correlation undeclared_field_object))"
    by (simp add: undeclared_field_object_def newRatchetingValueValidator_def Key_def
          NewCorrelatedObject_def Let_def)
  have eng: "field_visiting_engine s (correlation undeclared_field_object)
               = (\<lparr>Errors = [''foo in body is required''], Warnings = []\<rparr>,
                  correlation undeclared_field_object)" for s
    by (simp add: field_visiting_engine_def key)
  have cde: "fst (CachedDeepEqual (correlation undeclared_field_object)) = False"
    by (simp add: undeclared_field_object_def newRatchetingValueValidator_def
          CachedDeepEqual_fresh compare_values_def)
  have val: "fst (Validate field_visiting_engine undeclared_field_object)
     = \<lparr>Errors = [''foo in body is required''], Warnings = []\<rparr>"
    using cde by (simp add: Validate_def eng IsValid_def getValidateOption_def split_beta)
  have same: "OldValue (correlation undeclared_field_object)
                = Value (correlation undeclared_field_object)"
    "DeepEqual (OldValue (correlation undeclared_field_object))
       (Value (correlation undeclared_field_object))"
    by (simp_all add: undeclared_field_object_def newRatchetingValueValidator_def)
  from same key cde val show ?thesis by (simp add: eng IsValid_def)
qed

theorem undeclared_field_not_forgiven_witness:
  "\<not> IsValid (fst (Validate field_visiting_engine undeclared_field_object))"
  using undeclared_field_not_forgiven by (simp add: IsValid_def)

subsection \<open>C2: positional correlation\<close>

text \<open>
  C2, as amended.  On a well-formed node whose schema declares none of the list types
  \<^verbatim>\<open>map\<close>, \<^verbatim>\<open>set\<close>, \<^verbatim>\<open>atomic\<close> and has an items schema: when old and new value are
  lists and \<open>i\<close> is within the bounds of the new list, \<^verbatim>\<open>Index\<close> returns a child whose
  old value is \<open>old[i]\<close> (and whose new value is \<open>new[i]\<close>, under the items schema) if
  \<open>i\<close> is within the bounds of the old list and \<open>old[i]\<close> is not null, and returns nil
  otherwise; and it returns nil when the old value is not a list, the new value is not a
  list, or \<open>i\<close> is beyond the end of the new list.
\<close>

theorem Index_positional:
  assumes wf: "wf_node n" and s: "Schema n = Some s"
    and lt: "listType s \<notin> {''map'', ''set'', ''atomic''}"
    and isch: "item_schema s = Some isch"
  shows
  "(OldValue n = VList old \<and> Value n = VList new \<and> 0 \<le> i \<and> i < int (length new) \<longrightarrow>
      (if i < int (length old) \<and> old ! nat i \<noteq> VNull
       then \<exists>c n'. Index (Some n) i = Inr (Some c, Some n') \<and>
              OldValue c = old ! nat i \<and> Value c = new ! nat i \<and> Schema c = Some isch
       else Index (Some n) i = Inr (None, Some n))) \<and>
   ((elements (OldValue n) = None \<or> elements (Value n) = None \<or>
     (Value n = VList new \<and> int (length new) \<le> i)) \<longrightarrow>
      Index (Some n) i = Inr (None, Some n))"
proof (intro conjI impI)
  assume a: "OldValue n = VList old \<and> Value n = VList new \<and> 0 \<le> i \<and> i < int (length new)"
  from lt have lt': "listType s \<noteq> ''map''" "listType s \<noteq> ''set''" "listType s \<noteq> ''atomic''"
    by auto
  from a show "if i < int (length old) \<and> old ! nat i \<noteq> VNull
       then \<exists>c n'. Index (Some n) i = Inr (Some c, Some n') \<and>
              OldValue c = old ! nat i \<and> Value c = new ! nat i \<and> Schema c = Some isch
       else Index (Some n) i = Inr (None, Some n)"
    using Index_positional_aux [OF wf s lt' _ _ isch, of old new i] by blast
next
  assume "elements (OldValue n) = None \<or> elements (Value n) = None \<or>
     (Value n = VList new \<and> int (length new) \<le> i)"
  then have "elements (OldValue n) = None \<or> elements (Value n) = None \<or>
                (\<exists>new. elements (Value n) = Some new \<and> int (length new) \<le> i)"
    by auto
  then show "Index (Some n) i = Inr (None, Some n)"
    by (rule Index_uncorrelatable_shape [OF wf])
qed

theorem Index_positional_witness:
  "\<exists>c n'. Index (Some (NewCorrelatedObject (VList [VInt 1, VInt 2]) (VList [VInt 1])
                          (Some positional_schema))) 0 = Inr (Some c, Some n') \<and>
          OldValue c = VInt 1 \<and> Value c = VInt 1 \<and> Schema c = Some (MkSchema [] None None [])"
proof -
  let ?n = "NewCorrelatedObject (VList [VInt 1, VInt 2]) (VList [VInt 1]) (Some positional_schema)"
  have lt: "listType positional_schema \<notin> {''map'', ''set'', ''atomic''}"
    by (simp add: positional_schema_def listType_def GetString_def)
  have isch: "item_schema positional_schema = Some (MkSchema [] None None [])"
    by (simp add: positional_schema_def item_schema_def)
  have wf: "wf_node ?n" by (rule wf_NewCorrelatedObject)
  have s: "Schema ?n = Some positional_schema" by simp
  from Index_positional [OF wf s lt isch, where old = "[VInt 1]" and new = "[VInt 1, VInt 2]"
      and i = 0]
  show ?thesis by simp
qed

text \<open>As stated, C2 has \<^verbatim>\<open>Index\<close> return a child whenever \<open>i\<close> is within the bounds of
  the old list.  Here index 0 is within the bounds of both lists, the old element is null,
  and \<^verbatim>\<open>Index\<close> returns nil.\<close>

theorem Index_positional_null_counterexample:
  "listType positional_schema \<notin> {''map'', ''set'', ''atomic''} \<and>
   (0::int) < int (length [VNull]) \<and> (0::int) < int (length [VInt 1]) \<and>
   Index (Some (NewCorrelatedObject (VList [VInt 1]) (VList [VNull]) (Some positional_schema))) 0
     = Inr (None, Some (NewCorrelatedObject (VList [VInt 1]) (VList [VNull])
                          (Some positional_schema)))"
  by (simp add: positional_schema_def listType_def GetString_def Index_def
        correlateOldValueForChildAtNewIndex_def index_slice_def)

subsection \<open>C4: cached equality is the reference algorithm\<close>

text \<open>
  C4.  \<^verbatim>\<open>CachedDeepEqual\<close> computes what the five-step reference algorithm
  \<open>reference_equal\<close> describes, on every node: whatever the cache, the values, the
  children and the caches of the descendants are, the boolean the call returns is the
  one the reference algorithm gives for the node as it is before the call.
\<close>

theorem CachedDeepEqual_reference:
  "fst (CachedDeepEqual r) = reference_equal r"
  by (rule CachedDeepEqual_reference_aux(1))

theorem CachedDeepEqual_reference_witness:
  "fst (CachedDeepEqual visited_list) = True \<and> reference_equal visited_list = True"
proof -
  have "reference_equal visited_list"
    by (simp add: visited_list_def reference_equal.simps upt_rec)
  then show ?thesis
    using CachedDeepEqual_reference [of visited_list] by simp
qed

subsection \<open>C5: the equality cache\<close>

text \<open>
  C5.  Calling \<^verbatim>\<open>CachedDeepEqual\<close> twice on the same node returns the same result and
  compares only once.  The first call, whatever path it returns by, leaves its result in
  the node's \<^verbatim>\<open>comparisonResult\<close>; a second call on the node as the first left it returns
  that result and leaves the node as it is; and a call on any node whose cache holds
  \<open>b\<close> returns \<open>b\<close> and the unchanged node whatever the node's values, schema and
  children are, so neither the values nor the children are examined.
\<close>

theorem CachedDeepEqual_memoized:
  "(case CachedDeepEqual r of
      (res, r1) \<Rightarrow> comparisonResult r1 = Some res \<and> CachedDeepEqual r1 = (res, r1)) \<and>
   CachedDeepEqual (MkCorrelatedObject ov nv s (Some b) m cs)
     = (b, MkCorrelatedObject ov nv s (Some b) m cs)"
proof -
  obtain res r1 where c: "CachedDeepEqual r = (res, r1)"
    by (cases "CachedDeepEqual r")
  have st: "comparisonResult r1 = Some res"
    using CachedDeepEqual_stores [of r] c by simp
  have again: "CachedDeepEqual r1 = (res, r1)"
    by (rule CachedDeepEqual_cached [OF st])
  have pre: "CachedDeepEqual (MkCorrelatedObject ov nv s (Some b) m cs)
     = (b, MkCorrelatedObject ov nv s (Some b) m cs)"
    by (rule CachedDeepEqual_cached) simp
  show ?thesis using c st again pre by simp
qed

theorem CachedDeepEqual_memoized_witness:
  "CachedDeepEqual (NewCorrelatedObject (VInt 1) (VInt 1) None)
     = (True, MkCorrelatedObject (VInt 1) (VInt 1) None (Some True) None []) \<and>
   CachedDeepEqual (MkCorrelatedObject (VInt 1) (VInt 1) None (Some True) None [])
     = (True, MkCorrelatedObject (VInt 1) (VInt 1) None (Some True) None []) \<and>
   CachedDeepEqual (MkCorrelatedObject (VInt 1) (VInt 2) None (Some True) None [])
     = (True, MkCorrelatedObject (VInt 1) (VInt 2) None (Some True) None [])"
proof -
  have first: "CachedDeepEqual (NewCorrelatedObject (VInt 1) (VInt 1) None)
     = (True, MkCorrelatedObject (VInt 1) (VInt 1) None (Some True) None [])"
    by (simp add: CachedDeepEqual_fresh compare_values_def NewCorrelatedObject_def)
  show ?thesis
    using CachedDeepEqual_memoized [of "NewCorrelatedObject (VInt 1) (VInt 1) None"
            "VInt 1" "VInt 2" None True None "[]"] first
    by simp
qed

subsection \<open>C6: property lookup\<close>

text \<open>
  C6.  \<^verbatim>\<open>Key\<close> on a nil receiver returns nil.  On a well-formed node it returns nil if
  the node has no schema, or if the old or the new value is not a map, or if the field is
  missing from the old or from the new map, or if the schema has neither a property of
  that name nor an additional-properties schema.  Otherwise it returns a child holding
  the field's old and new value under the named property's schema if one is declared and
  the additional-properties schema if not; the child is stored in \<^verbatim>\<open>children\<close> under the
  field name, and a further lookup of the field returns that child.  Memoization, on
  every node that has a schema: when a child is stored under the field name, \<^verbatim>\<open>Key\<close>
  returns that very child and leaves the node as it was; when none is stored, a lookup
  that returns a child has constructed it with \<^verbatim>\<open>NewCorrelatedObject\<close> from the field's
  new value, old value and schema and has stored it under the field name, changing
  nothing else, and a lookup that returns nil leaves the node as it was.
\<close>

theorem Key_lookup:
  assumes wf: "wf_node n"
  shows
  "Key None field = (None, None) \<and>
   (case Schema n of
      None \<Rightarrow> Key (Some n) field = (None, Some n)
    | Some s \<Rightarrow>
       (case (entries (OldValue n), entries (Value n)) of
          (Some om, Some nm) \<Rightarrow>
            (case (map_of om field, map_of nm field, property_schema s field) of
               (Some ov, Some nv, Some ps) \<Rightarrow>
                 (\<exists>c n'. Key (Some n) field = (Some c, Some n') \<and>
                    OldValue c = ov \<and> Value c = nv \<and> Schema c = Some ps \<and>
                    map_of (children n') (KStr field) = Some c \<and>
                    Key (Some n') field = (Some c, Some n'))
             | _ \<Rightarrow> Key (Some n) field = (None, Some n))
        | _ \<Rightarrow> Key (Some n) field = (None, Some n))) \<and>
   (case (Schema n, map_of (children n) (KStr field)) of
      (None, _) \<Rightarrow> Key (Some n) field = (None, Some n)
    | (Some s, Some existing) \<Rightarrow> Key (Some n) field = (Some existing, Some n)
    | (Some s, None) \<Rightarrow>
        (case Key (Some n) field of
           (None, l) \<Rightarrow> l = Some n
         | (Some c, l) \<Rightarrow>
             (\<exists>om nm ov nv ps.
                entries (OldValue n) = Some om \<and> entries (Value n) = Some nm \<and>
                map_of om field = Some ov \<and> map_of nm field = Some nv \<and>
                property_schema s field = Some ps \<and>
                c = NewCorrelatedObject nv ov (Some ps)) \<and>
             l = Some (set_children (AList.update (KStr field) c (children n)) n)))"
proof (intro conjI)
  show "Key None field = (None, None)" by (rule Key_nil)
next
  from Key_lookup_aux [OF wf, of field]
  show "case Schema n of
      None \<Rightarrow> Key (Some n) field = (None, Some n)
    | Some s \<Rightarrow>
       (case (entries (OldValue n), entries (Value n)) of
          (Some om, Some nm) \<Rightarrow>
            (case (map_of om field, map_of nm field, property_schema s field) of
               (Some ov, Some nv, Some ps) \<Rightarrow>
                 (\<exists>c n'. Key (Some n) field = (Some c, Some n') \<and>
                    OldValue c = ov \<and> Value c = nv \<and> Schema c = Some ps \<and>
                    map_of (children n') (KStr field) = Some c \<and>
                    Key (Some n') field = (Some c, Some n'))
             | _ \<Rightarrow> Key (Some n) field = (None, Some n))
        | _ \<Rightarrow> Key (Some n) field = (None, Some n))"
    by (rule conjunct2)
next
  show "case (Schema n, map_of (children n) (KStr field)) of
      (None, _) \<Rightarrow> Key (Some n) field = (None, Some n)
    | (Some s, Some existing) \<Rightarrow> Key (Some n) field = (Some existing, Some n)
    | (Some s, None) \<Rightarrow>
        (case Key (Some n) field of
           (None, l) \<Rightarrow> l = Some n
         | (Some c, l) \<Rightarrow>
             (\<exists>om nm ov nv ps.
                entries (OldValue n) = Some om \<and> entries (Value n) = Some nm \<and>
                map_of om field = Some ov \<and> map_of nm field = Some nv \<and>
                property_schema s field = Some ps \<and>
                c = NewCorrelatedObject nv ov (Some ps)) \<and>
             l = Some (set_children (AList.update (KStr field) c (children n)) n))"
  proof (cases "Schema n")
    case None
    then show ?thesis by (simp add: Key_no_schema)
  next
    case (Some s)
    show ?thesis
    proof (cases "map_of (children n) (KStr field)")
      case memo: (Some c)
      with Some show ?thesis by (simp add: Key_memo)
    next
      case fresh: None
      show ?thesis
        using Some fresh
        by (auto simp: Key_fresh [OF Some fresh] split: option.splits)
    qed
  qed
qed

theorem Key_lookup_witness:
  "(\<exists>c n'. Key (Some (correlation unchanged_object)) ''foo'' = (Some c, Some n') \<and>
      OldValue c = VString ''legacy'' \<and> Value c = VString ''legacy'' \<and>
      Schema c = Some (MkSchema [] None None []) \<and>
      map_of (children n') (KStr ''foo'') = Some c \<and>
      Key (Some n') ''foo'' = (Some c, Some n')) \<and>
   Key (Some visited_object) ''foo''
     = (Some (MkCorrelatedObject (VString ''legacy'') (VString ''legacy'')
                (Some (MkSchema [] None None [])) (Some True) None []),
        Some visited_object)"
proof -
  have wf: "wf_node (correlation unchanged_object)"
    by (simp add: unchanged_object_def newRatchetingValueValidator_def wf_NewCorrelatedObject)
  have wf': "wf_node visited_object"
    by (simp add: visited_object_def wf_node.simps mapList_ok_def cache_ok_def
          child_correlated_def pristine_def Key_def NewCorrelatedObject_def compare_values_def
          Let_def)
  have fresh: ?thesis if "\<exists>c n'. Key (Some (correlation unchanged_object)) ''foo'' = (Some c, Some n') \<and>
      OldValue c = VString ''legacy'' \<and> Value c = VString ''legacy'' \<and>
      Schema c = Some (MkSchema [] None None []) \<and>
      map_of (children n') (KStr ''foo'') = Some c \<and>
      Key (Some n') ''foo'' = (Some c, Some n')"
    using that Key_lookup [OF wf', of "''foo''", THEN conjunct2, THEN conjunct2]
    by (simp add: visited_object_def)
  show ?thesis
    using Key_lookup [OF wf, of "''foo''", THEN conjunct2, THEN conjunct1]
    by (intro fresh)
       (simp add: unchanged_object_def newRatchetingValueValidator_def property_schema_def)
qed

subsection \<open>C8: the hooks\<close>

text \<open>
  C8.  \<^verbatim>\<open>SubPropertyValidator\<close> returns the engine's own validator for the child schema
  when \<^verbatim>\<open>Key\<close> returns nil, and a ratcheting validator bound to the returned child
  otherwise; \<^verbatim>\<open>SubIndexValidator\<close> does the same with \<^verbatim>\<open>Index\<close> (and panics where
  \<^verbatim>\<open>Index\<close> does).  Either validator is built from the schema, root schema, path,
  formats and options the caller passed, unchanged.  \<^verbatim>\<open>SetPath\<close> changes nothing and
  \<^verbatim>\<open>Applies\<close> is true of every input.
\<close>

theorem hooks_select_validator:
  "(case Key (Some (correlation r)) field of
      (None, l) \<Rightarrow>
        fst (SubPropertyValidator r field s rootSchema rt formats opts)
          = DefaultValidator (NewSchemaValidator s rootSchema rt formats opts)
    | (Some child, l) \<Rightarrow>
        fst (SubPropertyValidator r field s rootSchema rt formats opts)
          = RatchetingValidator
              \<lparr>schema = s, root = rootSchema, path = rt, knownFormats = formats,
               options = opts, correlation = child\<rparr>) \<and>
   (case Index (Some (correlation r)) i of
      Inl p \<Rightarrow> SubIndexValidator r i s rootSchema rt formats opts = Inl p
    | Inr (None, l) \<Rightarrow>
        map_sum id fst (SubIndexValidator r i s rootSchema rt formats opts)
          = Inr (DefaultValidator (NewSchemaValidator s rootSchema rt formats opts))
    | Inr (Some child, l) \<Rightarrow>
        map_sum id fst (SubIndexValidator r i s rootSchema rt formats opts)
          = Inr (RatchetingValidator
                   \<lparr>schema = s, root = rootSchema, path = rt, knownFormats = formats,
                    options = opts, correlation = child\<rparr>)) \<and>
   SetPath r p' = r \<and> Applies r source valueKind"
  by (simp add: SubPropertyValidator_def SubIndexValidator_def newRatchetingValueValidator_def
        SetPath_def Applies_def Let_def split: prod.splits option.splits sum.splits)

theorem hooks_select_validator_witness:
  "fst (SubPropertyValidator unchanged_object ''foo'' (Some (MkSchema [] None None [])) None
          ''foo'' (MkRegistry []) [CallerOption 7])
     = RatchetingValidator
         \<lparr>schema = Some (MkSchema [] None None []), root = None, path = ''foo'',
          knownFormats = MkRegistry [], options = [CallerOption 7],
          correlation = NewCorrelatedObject (VString ''legacy'') (VString ''legacy'')
                          (Some (MkSchema [] None None []))\<rparr> \<and>
   fst (SubPropertyValidator unchanged_object ''bar'' (Some (MkSchema [] None None [])) None
          ''bar'' (MkRegistry []) [CallerOption 7])
     = DefaultValidator
         (NewSchemaValidator (Some (MkSchema [] None None [])) None ''bar'' (MkRegistry [])
            [CallerOption 7])"
proof -
  let ?c = "NewCorrelatedObject (VString ''legacy'') (VString ''legacy'')
              (Some (MkSchema [] None None []))"
  obtain l where foo: "Key (Some (correlation unchanged_object)) ''foo'' = (Some ?c, l)"
    by (simp add: unchanged_object_def newRatchetingValueValidator_def Key_def Let_def)
  obtain l' where bar: "Key (Some (correlation unchanged_object)) ''bar'' = (None, l')"
    by (simp add: unchanged_object_def newRatchetingValueValidator_def Key_def)
  have 1: "fst (SubPropertyValidator unchanged_object ''foo'' (Some (MkSchema [] None None []))
                  None ''foo'' (MkRegistry []) [CallerOption 7])
     = RatchetingValidator
         \<lparr>schema = Some (MkSchema [] None None []), root = None, path = ''foo'',
          knownFormats = MkRegistry [], options = [CallerOption 7], correlation = ?c\<rparr>"
    using hooks_select_validator [of unchanged_object "''foo''" "Some (MkSchema [] None None [])"
            None "''foo''" "MkRegistry []" "[CallerOption 7]", THEN conjunct1]
    by (simp add: foo)
  have 2: "fst (SubPropertyValidator unchanged_object ''bar'' (Some (MkSchema [] None None []))
                  None ''bar'' (MkRegistry []) [CallerOption 7])
     = DefaultValidator
         (NewSchemaValidator (Some (MkSchema [] None None [])) None ''bar'' (MkRegistry [])
            [CallerOption 7])"
    using hooks_select_validator [of unchanged_object "''bar''" "Some (MkSchema [] None None [])"
            None "''bar''" "MkRegistry []" "[CallerOption 7]", THEN conjunct1]
    by (simp add: bar)
  from 1 2 show ?thesis by simp
qed

subsection \<open>C3: set and atomic lists\<close>

text \<open>
  C3 at a concrete input.  Under a schema of list type \<^verbatim>\<open>set\<close>, old and new value are the
  same two-element list.  \<^verbatim>\<open>Index\<close> returns nil for both elements, so an engine run that
  asks the index hook for them leaves the node without children; the engine reports a
  failure against the list; \<^verbatim>\<open>CachedDeepEqual\<close> answers false, not through a structural
  comparison of the two lists but because the number of children differs from the length;
  and \<^verbatim>\<open>Validate\<close> returns the errors unchanged.  (\<open>Index_set_atomic\<close> and
  \<open>set_atomic_list_never_equal\<close> above show the same of every well-formed node with a
  \<^verbatim>\<open>set\<close> or \<^verbatim>\<open>atomic\<close> schema and a non-empty list.)
\<close>

theorem unchanged_set_list_not_forgiven:
  "OldValue (correlation unchanged_set) = Value (correlation unchanged_set) \<and>
   DeepEqual (OldValue (correlation unchanged_set)) (Value (correlation unchanged_set)) \<and>
   Index (Some (correlation unchanged_set)) 0 = Inr (None, Some (correlation unchanged_set)) \<and>
   Index (Some (correlation unchanged_set)) 1 = Inr (None, Some (correlation unchanged_set)) \<and>
   fst (CachedDeepEqual (correlation unchanged_set)) = False \<and>
   fst (Validate element_visiting_engine unchanged_set)
     = \<lparr>Errors = [''too many items''], Warnings = []\<rparr>"
proof -
  have eng: "element_visiting_engine s (correlation unchanged_set)
               = (\<lparr>Errors = [''too many items''], Warnings = []\<rparr>, correlation unchanged_set)" for s
    by (simp add: element_visiting_engine_def unchanged_set_Index)
  have cde: "fst (CachedDeepEqual (correlation unchanged_set)) = False"
    by (simp add: unchanged_set_def newRatchetingValueValidator_def CachedDeepEqual_fresh
          compare_values_def)
  have val: "fst (Validate element_visiting_engine unchanged_set)
     = \<lparr>Errors = [''too many items''], Warnings = []\<rparr>"
    using cde by (simp add: Validate_def eng IsValid_def split_beta)
  have same: "OldValue (correlation unchanged_set) = Value (correlation unchanged_set)"
    "DeepEqual (OldValue (correlation unchanged_set)) (Value (correlation unchanged_set))"
    by (simp_all add: unchanged_set_def newRatchetingValueValidator_def)
  from same unchanged_set_Index cde val show ?thesis by simp
qed

theorem unchanged_set_list_not_forgiven_witness:
  "\<not> IsValid (fst (Validate element_visiting_engine unchanged_set))"
  using unchanged_set_list_not_forgiven by (simp add: IsValid_def)

subsection \<open>C7: faults\<close>

text \<open>
  C7 at a concrete input.  On a node whose old and new value are two-element lists and
  whose schema declares no list type, \<^verbatim>\<open>Index\<close> with the index \<open>-1\<close> passes the bounds
  check \<^verbatim>\<open>len(asList) <= i\<close>, and \<^verbatim>\<open>correlateOldValueForChildAtNewIndex\<close> reads
  \<^verbatim>\<open>oldAsList[-1]\<close>: the call panics.  (\<open>Index_total_nonneg\<close> above shows that
  \<^verbatim>\<open>Index\<close> returns for every receiver and every index that is not negative; \<^verbatim>\<open>Key\<close> and
  \<^verbatim>\<open>CachedDeepEqual\<close> have no operation that can fault.)
\<close>

theorem Index_negative_index_panics:
  "Index (Some two_element_list) (- 1) = Inl (IndexOutOfRange (- 1) 2)"
  by (simp add: two_element_list_def positional_schema_def Index_def
        correlateOldValueForChildAtNewIndex_def GetString_def index_slice_def)

theorem Index_negative_index_panics_witness:
  "\<exists>p. Index (Some two_element_list) (- 1) = Inl p"
  using Index_negative_index_panics by simp

subsection \<open>C9: null values at the two lookups\<close>

text \<open>
  C9.  On a well-formed node with a schema: \<^verbatim>\<open>Key\<close> correlates a field that is null in
  both the old and the new map (given a schema for the field), returning a child whose
  two values are null and whose \<^verbatim>\<open>CachedDeepEqual\<close> is true; whereas \<^verbatim>\<open>Index\<close> returns
  nil whenever \<^verbatim>\<open>correlateOldValueForChildAtNewIndex\<close> returns nil, and so in particular
  for an element whose old counterpart by position is null although the index is within
  the bounds of both lists.
\<close>

theorem null_asymmetry:
  assumes wf: "wf_node n" and s: "Schema n = Some s"
  shows
  "(property_schema s field = Some ps \<and> OldValue n = VMap om \<and> Value n = VMap nm \<and>
    map_of om field = Some VNull \<and> map_of nm field = Some VNull \<longrightarrow>
      (\<exists>c n'. Key (Some n) field = (Some c, Some n') \<and> OldValue c = VNull \<and>
               Value c = VNull \<and> fst (CachedDeepEqual c))) \<and>
   (correlateOldValueForChildAtNewIndex n i = Inr (VNull, n1) \<longrightarrow>
      (\<exists>l. Index (Some n) i = Inr (None, l))) \<and>
   (listType s \<notin> {''map'', ''set'', ''atomic''} \<and> OldValue n = VList old \<and>
    Value n = VList new \<and> 0 \<le> i \<and> i < int (length old) \<and> i < int (length new) \<and>
    old ! nat i = VNull \<longrightarrow>
      Index (Some n) i = Inr (None, Some n))"
proof (intro conjI impI)
  assume a: "property_schema s field = Some ps \<and> OldValue n = VMap om \<and> Value n = VMap nm \<and>
    map_of om field = Some VNull \<and> map_of nm field = Some VNull"
  from Key_lookup_aux [OF wf, of field] s a
  obtain c n' where k: "Key (Some n) field = (Some c, Some n')"
    and c: "OldValue c = VNull" "Value c = VNull"
    by auto
  from Key_preserves_wf [OF wf k] have "wf_node c" by auto
  from null_node_equal [OF this c] k c
  show "\<exists>c n'. Key (Some n) field = (Some c, Some n') \<and> OldValue c = VNull \<and>
               Value c = VNull \<and> fst (CachedDeepEqual c)"
    by blast
next
  assume "correlateOldValueForChildAtNewIndex n i = Inr (VNull, n1)"
  from Index_null_correlate [OF wf this]
  show "\<exists>l. Index (Some n) i = Inr (None, l)" by auto
next
  assume a: "listType s \<notin> {''map'', ''set'', ''atomic''} \<and> OldValue n = VList old \<and>
    Value n = VList new \<and> 0 \<le> i \<and> i < int (length old) \<and> i < int (length new) \<and>
    old ! nat i = VNull"
  then have "correlateOldValueForChildAtNewIndex n i = Inr (VNull, n)"
    using correlate_positional [OF s, of old new i] by auto
  from Index_null_correlate [OF wf this]
  show "Index (Some n) i = Inr (None, Some n)" by auto
qed

theorem null_asymmetry_witness:
  "(\<exists>c n'. Key (Some null_field_object) ''foo'' = (Some c, Some n') \<and> OldValue c = VNull \<and>
            Value c = VNull \<and> fst (CachedDeepEqual c)) \<and>
   Index (Some null_element_list) 0 = Inr (None, Some null_element_list)"
proof -
  have wf1: "wf_node null_field_object" and wf2: "wf_node null_element_list"
    by (simp_all add: null_field_object_def null_element_list_def wf_NewCorrelatedObject)
  have s1: "Schema null_field_object
              = Some (MkSchema [(''foo'', MkSchema [] None None [])] None None [])"
    by (simp add: null_field_object_def)
  have s2: "Schema null_element_list = Some positional_schema"
    by (simp add: null_element_list_def)
  have lt: "listType positional_schema \<notin> {''map'', ''set'', ''atomic''}"
    by (simp add: positional_schema_def listType_def GetString_def)
  have ps: "property_schema (MkSchema [(''foo'', MkSchema [] None None [])] None None []) ''foo''
              = Some (MkSchema [] None None [])"
    by (simp add: property_schema_def)
  have 1: "\<exists>c n'. Key (Some null_field_object) ''foo'' = (Some c, Some n') \<and> OldValue c = VNull \<and>
            Value c = VNull \<and> fst (CachedDeepEqual c)"
    using null_asymmetry [OF wf1 s1, where field = "''foo''" and ps = "MkSchema [] None None []"
            and om = "[(''foo'', VNull)]" and nm = "[(''foo'', VNull)]", THEN conjunct1] ps
    by (simp add: null_field_object_def)
  have 2: "Index (Some null_element_list) 0 = Inr (None, Some null_element_list)"
    using null_asymmetry [OF wf2 s2, where old = "[VNull]" and new = "[VNull]" and i = 0,
            THEN conjunct2, THEN conjunct2] lt
    by (simp add: null_element_list_def)
  from 1 2 show ?thesis by simp
qed

subsection \<open>C10: the children map\<close>

text \<open>
  C10, as amended.  For every node, one lookup by \<^verbatim>\<open>Key\<close> or by \<^verbatim>\<open>Index\<close> (that
  returns) keeps the node well-formed, so \<^verbatim>\<open>children\<close> holds only correlated children,
  and keeps the equality cache.  A lookup that returns nil leaves \<^verbatim>\<open>children\<close> as it was.
  \<^verbatim>\<open>Key\<close> leaves \<^verbatim>\<open>mapList\<close> as it was, and leaves the whole node as it was when it
  returns nil.  \<^verbatim>\<open>Index\<close>, whether it returns nil or a child, stores in \<^verbatim>\<open>mapList\<close> the
  map list built from the old list exactly when the lookup reaches the keyed correlation
  with no map list stored: the schema's list type is \<^verbatim>\<open>map\<close>, no child is stored under
  the index, the old and the new value are lists, the index is below the length of the
  new list, and \<^verbatim>\<open>mapList\<close> is nil; in every other case it leaves \<^verbatim>\<open>mapList\<close> as it was.
  A lookup that returns a child \<open>c\<close> leaves \<open>c\<close> stored under the key: if the key was
  absent before, \<^verbatim>\<open>children\<close> is extended by exactly that entry, and if it was present
  the node is unchanged; a repeated lookup of the key returns \<open>c\<close> and changes nothing.
\<close>

theorem lookups_memoize:
  "(case Key (Some n) field of
      (res, l) \<Rightarrow>
        \<exists>n'. l = Some n' \<and> (wf_node n \<longrightarrow> wf_node n') \<and>
          comparisonResult n' = comparisonResult n \<and> mapList n' = mapList n \<and>
          (case res of
             None \<Rightarrow> n' = n
           | Some c \<Rightarrow>
               map_of (children n') (KStr field) = Some c \<and>
               Key (Some n') field = (Some c, Some n') \<and>
               (if map_of (children n) (KStr field) = None
                then children n' = children n @ [(KStr field, c)]
                else n' = n))) \<and>
   (case Index (Some n) i of
      Inl p \<Rightarrow> True
    | Inr (res, l) \<Rightarrow>
        \<exists>n'. l = Some n' \<and> (wf_node n \<longrightarrow> wf_node n') \<and>
          comparisonResult n' = comparisonResult n \<and>
          mapList n' =
            (case (Schema n, elements (OldValue n), elements (Value n)) of
               (Some s, Some old, Some new) \<Rightarrow>
                 if listType s = ''map'' \<and> i < int (length new) \<and> mapList n = None \<and>
                    map_of (children n) (KInt i) = None
                 then Some (MakeMapList s old) else mapList n
             | _ \<Rightarrow> mapList n) \<and>
          (case res of
             None \<Rightarrow> children n' = children n
           | Some c \<Rightarrow>
               map_of (children n') (KInt i) = Some c \<and>
               Index (Some n') i = Inr (Some c, Some n') \<and>
               (if map_of (children n) (KInt i) = None
                then children n' = children n @ [(KInt i, c)]
                else n' = n)))"
proof (rule conjI)
  obtain res l where k: "Key (Some n) field = (res, l)"
    by (cases "Key (Some n) field")
  from Key_step [OF k] obtain n' where n': "l = Some n'"
    and rest: "comparisonResult n' = comparisonResult n \<and> mapList n' = mapList n \<and>
          (case res of
             None \<Rightarrow> n' = n
           | Some c \<Rightarrow>
               map_of (children n') (KStr field) = Some c \<and>
               Key (Some n') field = (Some c, Some n') \<and>
               (if map_of (children n) (KStr field) = None
                then children n' = children n @ [(KStr field, c)]
                else n' = n))"
    by blast
  have "wf_node n \<longrightarrow> wf_node n'"
    using Key_preserves_wf [OF _ k] n' by auto
  with k n' rest show "case Key (Some n) field of
      (res, l) \<Rightarrow>
        \<exists>n'. l = Some n' \<and> (wf_node n \<longrightarrow> wf_node n') \<and>
          comparisonResult n' = comparisonResult n \<and> mapList n' = mapList n \<and>
          (case res of
             None \<Rightarrow> n' = n
           | Some c \<Rightarrow>
               map_of (children n') (KStr field) = Some c \<and>
               Key (Some n') field = (Some c, Some n') \<and>
               (if map_of (children n) (KStr field) = None
                then children n' = children n @ [(KStr field, c)]
                else n' = n))"
    by simp
next
  show "case Index (Some n) i of
      Inl p \<Rightarrow> True
    | Inr (res, l) \<Rightarrow>
        \<exists>n'. l = Some n' \<and> (wf_node n \<longrightarrow> wf_node n') \<and>
          comparisonResult n' = comparisonResult n \<and>
          mapList n' =
            (case (Schema n, elements (OldValue n), elements (Value n)) of
               (Some s, Some old, Some new) \<Rightarrow>
                 if listType s = ''map'' \<and> i < int (length new) \<and> mapList n = None \<and>
                    map_of (children n) (KInt i) = None
                 then Some (MakeMapList s old) else mapList n
             | _ \<Rightarrow> mapList n) \<and>
          (case res of
             None \<Rightarrow> children n' = children n
           | Some c \<Rightarrow>
               map_of (children n') (KInt i) = Some c \<and>
               Index (Some n') i = Inr (Some c, Some n') \<and>
               (if map_of (children n) (KInt i) = None
                then children n' = children n @ [(KInt i, c)]
                else n' = n))"
  proof (cases "Index (Some n) i")
    case (Inl p)
    then show ?thesis by simp
  next
    case (Inr rl)
    obtain res l where rl: "rl = (res, l)" by (cases rl)
    with Inr have k: "Index (Some n) i = Inr (res, l)" by simp
    from Index_step [OF k] obtain n' where n': "l = Some n'"
      and cr: "comparisonResult n' = comparisonResult n"
      and rest: "case res of
             None \<Rightarrow> children n' = children n
           | Some c \<Rightarrow>
               map_of (children n') (KInt i) = Some c \<and>
               Index (Some n') i = Inr (Some c, Some n') \<and>
               (if map_of (children n) (KInt i) = None
                then children n' = children n @ [(KInt i, c)]
                else n' = n)"
      by blast
    from k n' have k': "Index (Some n) i = Inr (res, Some n')" by simp
    note ml = Index_mapList [OF k']
    have wf: "wf_node n \<longrightarrow> wf_node n'"
      using Index_preserves_wf [OF _ k] n' by auto
    from wf cr ml rest show ?thesis
      unfolding k n' by simp
  qed
qed

theorem lookups_memoize_witness:
  "(\<exists>c n'. Key (Some (correlation unchanged_object)) ''foo'' = (Some c, Some n') \<and>
      wf_node n' \<and> children n' = [(KStr ''foo'', c)] \<and>
      Key (Some n') ''foo'' = (Some c, Some n')) \<and>
   Index (Some renamed_element) 1 = Inr (None, Some renamed_element) \<and>
   (\<exists>n'. Index (Some renamed_element) 0 = Inr (None, Some n') \<and>
      children n' = [] \<and> comparisonResult n' = None \<and>
      mapList n' = Some (MakeMapList keyed_schema [VMap [(''name'', VString ''a'')]]))"
proof -
  have wf: "wf_node (correlation unchanged_object)"
    by (simp add: unchanged_object_def newRatchetingValueValidator_def wf_NewCorrelatedObject)
  obtain l where foo: "Key (Some (correlation unchanged_object)) ''foo''
      = (Some (NewCorrelatedObject (VString ''legacy'') (VString ''legacy'')
                 (Some (MkSchema [] None None []))), l)"
    by (simp add: unchanged_object_def newRatchetingValueValidator_def Key_def Let_def)
  have ch: "children (correlation unchanged_object) = []"
    by (simp add: unchanged_object_def newRatchetingValueValidator_def)
  have i1: "Index (Some renamed_element) 1 = Inr (None, Some renamed_element)"
    by (simp add: renamed_element_def keyed_schema_def Index_def Let_def)
  obtain m where i0: "Index (Some renamed_element) 0 = Inr (None, Some m)"
    by (simp add: renamed_element_def keyed_schema_def Index_def
        correlateOldValueForChildAtNewIndex_def GetString_def index_slice_def MakeMapList_def
        Get_def merge_key_def XListMapKeys_def Let_def)
  have sel: "Schema renamed_element = Some keyed_schema"
    "elements (OldValue renamed_element) = Some [VMap [(''name'', VString ''a'')]]"
    "elements (Value renamed_element) = Some [VMap [(''name'', VString ''b'')]]"
    "mapList renamed_element = None" "children renamed_element = []"
    "comparisonResult renamed_element = None"
    "listType keyed_schema = ''map''"
    by (simp_all add: renamed_element_def keyed_schema_def listType_def GetString_def)
  have a: "\<exists>c n'. Key (Some (correlation unchanged_object)) ''foo'' = (Some c, Some n') \<and>
      wf_node n' \<and> children n' = [(KStr ''foo'', c)] \<and>
      Key (Some n') ''foo'' = (Some c, Some n')"
    using lookups_memoize [of "correlation unchanged_object" "''foo''" 0, THEN conjunct1] wf
    by (auto simp: foo ch)
  have b: "\<exists>n'. Index (Some renamed_element) 0 = Inr (None, Some n') \<and>
      children n' = [] \<and> comparisonResult n' = None \<and>
      mapList n' = Some (MakeMapList keyed_schema [VMap [(''name'', VString ''a'')]])"
    using lookups_memoize [of renamed_element "''x''" 0, THEN conjunct2]
    by (simp add: i0 sel)
  from a i1 b show ?thesis by simp
qed

text \<open>As stated, C10 has a lookup that returns nil leave the map-index cache unchanged.
  Here the list type is \<^verbatim>\<open>map\<close>, the one new element has no old element with its key, and
  \<^verbatim>\<open>Index\<close> returns nil after \<^verbatim>\<open>correlateOldValueForChildAtNewIndex\<close> has built
  \<^verbatim>\<open>mapList\<close>.\<close>

theorem failed_Index_fills_mapList_counterexample:
  "mapList renamed_element = None \<and>
   Index (Some renamed_element) 0
     = Inr (None,
            Some (set_mapList
                    (Some (MkMapList [''name'']
                             [([VString ''a''], VMap [(''name'', VString ''a'')])]))
                    renamed_element))"
  by (simp add: renamed_element_def keyed_schema_def Index_def
        correlateOldValueForChildAtNewIndex_def GetString_def index_slice_def MakeMapList_def
        Get_def merge_key_def XListMapKeys_def Let_def)

end
